theory Spec2Isabelle
  imports Complex_Main "HOL-Library.Multiset" "HOL-Library.Sublist"
begin

section \<open>Data model of package scanner\<close>

text \<open>
  Go's \<open>int\<close> is modelled by \<open>int\<close>; the one place where the code does arithmetic that
  can leave the 64-bit range (\<open>Sparkline\<close>) wraps explicitly with \<open>wrap64\<close>.
  A \<open>time.Time\<close> is modelled by its clock reading, an \<open>int\<close>; every call of
  \<open>time.Now()\<close> is a parameter of the function that makes it.
  A rune is its code point.
\<close>

type_synonym time = int
type_synonym rune = nat

text \<open>\<open>type Network struct\<close> (scanner.go).\<close>

record Network =
  BSSID :: string
  SSID :: string
  Signal :: int
  Frequency :: int
  Channel :: int
  Security :: string
  LastSeen :: time

text \<open>
  \<open>type NetworkState struct\<close> (session tracker). The fields \<open>BSSID\<close> and \<open>LastSeen\<close>
  carry the prefix \<open>ns_\<close>, since a record field name is global in a theory.
\<close>

record NetworkState =
  ns_BSSID :: string
  FirstSeen :: time
  ns_LastSeen :: time
  SignalHistory :: "int list"
  MinSignal :: int
  MaxSignal :: int

text \<open>
  \<open>type Session struct\<close>: the map from BSSID to the state it points to. Every pointer
  stored in the map is created by \<open>Update\<close> for one key, so no two keys share a state and
  the in-place mutation through the pointer is a map update. The mutex serialises the
  calls; a call is modelled as one atomic function.
\<close>

record Session =
  states :: "string \<rightharpoonup> NetworkState"

definition maxHistory :: nat where
  "maxHistory = 10"

definition sparkBlocks :: "rune list" where
  "sparkBlocks = [0x2581, 0x2582, 0x2583, 0x2584, 0x2585, 0x2586, 0x2587, 0x2588]"

definition zero_Time :: time where
  "zero_Time = 0"

section \<open>Go integer arithmetic\<close>

text \<open>Two's complement wrap-around of a 64-bit \<open>int\<close>.\<close>

definition wrap64 :: "int \<Rightarrow> int" where
  "wrap64 x = signed_take_bit 63 x"

text \<open>Go's \<open>/\<close> on integers truncates toward zero (the divisor is never 0 here).\<close>

definition go_div :: "int \<Rightarrow> int \<Rightarrow> int" where
  "go_div a b = sgn a * sgn b * (\<bar>a\<bar> div \<bar>b\<bar>)"

section \<open>Sparkline\<close>

text \<open>The body of the loop of \<open>Sparkline\<close>: the index into \<open>sparkBlocks\<close> for one reading.\<close>

definition spark_idx :: "int \<Rightarrow> int" where
  "spark_idx sig =
     (let idx = go_div (wrap64 (wrap64 (sig + 100) * 7)) 80;
          idx = (if idx < 0 then 0 else idx);
          idx = (if idx > 7 then 7 else idx)
      in idx)"

text \<open>
  \<open>func (ns *NetworkState) Sparkline() string\<close>. The result is the slice \<open>runes\<close>;
  the returned Go string is the UTF-8 text of these runes, one glyph each.
\<close>

definition Sparkline :: "NetworkState \<Rightarrow> rune list" where
  "Sparkline ns =
     (if length (SignalHistory ns) = 0 then []
      else map (\<lambda>sig. sparkBlocks ! nat (spark_idx sig)) (SignalHistory ns))"

text \<open>
  The level of the specification, in its own words:
  \<open>clamp(round((sample + 100) * 7 / 80), 0, 7)\<close>, with rounding to the nearest integer.
\<close>

definition spec_level :: "int \<Rightarrow> int" where
  "spec_level s = max 0 (min 7 (round (real_of_int ((s + 100) * 7) / 80)))"

section \<open>Session tracker\<close>

definition NewSession :: Session where
  "NewSession = \<lparr>states = Map.empty\<rparr>"

text \<open>
  One iteration of the loop of \<open>Update\<close>, on the pair of the session and the list
  \<open>newBSSIDs\<close>.
\<close>

definition Update_body ::
  "time \<Rightarrow> Network \<Rightarrow> Session \<times> string list \<Rightarrow> Session \<times> string list" where
  "Update_body now net acc =
     (let s = fst acc; newBSSIDs = snd acc;
          (state, newBSSIDs) =
            (case states s (BSSID net) of
               None \<Rightarrow>
                 (\<lparr>ns_BSSID = BSSID net, FirstSeen = now, ns_LastSeen = zero_Time,
                   SignalHistory = [], MinSignal = Signal net, MaxSignal = Signal net\<rparr>,
                  newBSSIDs @ [BSSID net])
             | Some state \<Rightarrow> (state, newBSSIDs));
          state = state\<lparr>ns_LastSeen := now\<rparr>;
          state = (if Signal net < MinSignal state
                   then state\<lparr>MinSignal := Signal net\<rparr> else state);
          state = (if Signal net > MaxSignal state
                   then state\<lparr>MaxSignal := Signal net\<rparr> else state);
          state = state\<lparr>SignalHistory := SignalHistory state @ [Signal net]\<rparr>;
          state = (if length (SignalHistory state) > maxHistory
                   then state\<lparr>SignalHistory :=
                          drop (length (SignalHistory state) - maxHistory) (SignalHistory state)\<rparr>
                   else state)
      in (s\<lparr>states := (states s)(BSSID net \<mapsto> state)\<rparr>, newBSSIDs))"

fun Update_loop ::
  "time \<Rightarrow> Network list \<Rightarrow> Session \<times> string list \<Rightarrow> Session \<times> string list" where
  "Update_loop now [] acc = acc"
| "Update_loop now (net # networks) acc = Update_loop now networks (Update_body now net acc)"

text \<open>
  \<open>func (s *Session) Update(networks []Network) []string\<close>: the session after the call
  and the returned list. \<open>now\<close> is the reading of \<open>time.Now()\<close> taken once per call.
\<close>

definition Update :: "Session \<Rightarrow> time \<Rightarrow> Network list \<Rightarrow> Session \<times> string list" where
  "Update s now networks = Update_loop now networks (s, [])"

definition Get :: "Session \<Rightarrow> string \<Rightarrow> NetworkState option" where
  "Get s bssid = states s bssid"

text \<open>A run of calls of \<open>Update\<close>, each with its clock reading and its batch.\<close>

fun Updates :: "Session \<Rightarrow> (time \<times> Network list) list \<Rightarrow> Session" where
  "Updates s [] = s"
| "Updates s (c # cs) = Updates (fst (Update s (fst c) (snd c))) cs"

section \<open>Scan parser: text primitives\<close>

text \<open>
  A Go string is a sequence of bytes, here a \<open>char list\<close>. Every pattern of the parser
  is made of ASCII literals and ASCII classes (and \<open>.\<close>, any character but the newline),
  so matching runes of the UTF-8 text and matching bytes agree.
\<close>

definition newline :: char where
  "newline = CHR 0x0A"

text \<open>The class \<open>[0-9a-fA-F:]\<close>.\<close>

definition hexColon :: "char \<Rightarrow> bool" where
  "hexColon c \<longleftrightarrow> c \<in> set ''0123456789abcdefABCDEF:''"

text \<open>The class \<open>\d\<close>.\<close>

definition digit :: "char \<Rightarrow> bool" where
  "digit c \<longleftrightarrow> c \<in> set ''0123456789''"

text \<open>The class \<open>\s\<close> of Go's regexp syntax: tab, newline, form feed, carriage return, space.\<close>

definition re_space :: "char \<Rightarrow> bool" where
  "re_space c \<longleftrightarrow> c \<in> set [CHR 0x09, CHR 0x0A, CHR 0x0C, CHR 0x0D, CHR 0x20]"

text \<open>The class \<open>[ \t]\<close>.\<close>

definition blank :: "char \<Rightarrow> bool" where
  "blank c \<longleftrightarrow> c = CHR 0x20 \<or> c = CHR 0x09"

text \<open>\<open>strings.Contains\<close>.\<close>

definition Contains :: "string \<Rightarrow> string \<Rightarrow> bool" where
  "Contains s substr = sublist substr s"

text \<open>
  \<open>strings.ToUpper\<close> on ASCII text, which is all the parser gives it (the match of
  \<open>[0-9a-fA-F:]{17}\<close>): the letters a-z become A-Z, every other byte stays.
\<close>

definition upper_byte :: "char \<Rightarrow> char" where
  "upper_byte c =
     (case map_of (zip ''abcdefghijklmnopqrstuvwxyz'' ''ABCDEFGHIJKLMNOPQRSTUVWXYZ'') c of
        Some u \<Rightarrow> u
      | None \<Rightarrow> c)"

definition ToUpper :: "string \<Rightarrow> string" where
  "ToUpper s = map upper_byte s"

text \<open>
  The UTF-8 texts of the runes for which \<open>unicode.IsSpace\<close> holds: the six ASCII ones,
  U+0085, U+00A0, U+1680, U+2000 to U+200A, U+2028, U+2029, U+202F, U+205F, U+3000.
\<close>

definition space_runes :: "string list" where
  "space_runes =
     [[CHR 0x09], [CHR 0x0A], [CHR 0x0B], [CHR 0x0C], [CHR 0x0D], [CHR 0x20],
      [CHR 0xC2, CHR 0x85], [CHR 0xC2, CHR 0xA0], [CHR 0xE1, CHR 0x9A, CHR 0x80],
      [CHR 0xE2, CHR 0x80, CHR 0x80], [CHR 0xE2, CHR 0x80, CHR 0x81],
      [CHR 0xE2, CHR 0x80, CHR 0x82], [CHR 0xE2, CHR 0x80, CHR 0x83],
      [CHR 0xE2, CHR 0x80, CHR 0x84], [CHR 0xE2, CHR 0x80, CHR 0x85],
      [CHR 0xE2, CHR 0x80, CHR 0x86], [CHR 0xE2, CHR 0x80, CHR 0x87],
      [CHR 0xE2, CHR 0x80, CHR 0x88], [CHR 0xE2, CHR 0x80, CHR 0x89],
      [CHR 0xE2, CHR 0x80, CHR 0x8A], [CHR 0xE2, CHR 0x80, CHR 0xA8],
      [CHR 0xE2, CHR 0x80, CHR 0xA9], [CHR 0xE2, CHR 0x80, CHR 0xAF],
      [CHR 0xE2, CHR 0x81, CHR 0x9F], [CHR 0xE3, CHR 0x80, CHR 0x80]]"

text \<open>The number of bytes of the space rune that starts (ends) the string, 0 when none does.\<close>

definition leading_space :: "string \<Rightarrow> nat" where
  "leading_space s =
     (case find (\<lambda>e. prefix e s) space_runes of None \<Rightarrow> 0 | Some e \<Rightarrow> length e)"

definition trailing_space :: "string \<Rightarrow> nat" where
  "trailing_space s =
     (case find (\<lambda>e. suffix e s) space_runes of None \<Rightarrow> 0 | Some e \<Rightarrow> length e)"

lemma space_runes_length: "e \<in> set space_runes \<Longrightarrow> 0 < length e \<and> length e \<le> 3"
  by (auto simp: space_runes_def)

lemma leading_space_le: "leading_space s \<le> length s"
  by (auto simp: leading_space_def find_Some_iff prefix_length_le split: option.splits)

lemma trailing_space_le: "trailing_space s \<le> length s"
  by (auto simp: trailing_space_def find_Some_iff suffix_length_le split: option.splits)

function TrimLeft_space :: "string \<Rightarrow> string" where
  "TrimLeft_space s =
     (if leading_space s = 0 then s else TrimLeft_space (drop (leading_space s) s))"
  by pat_completeness auto
termination
proof (relation "measure length")
  show "wf (measure length)" by simp
next
  fix s :: string
  assume "leading_space s \<noteq> 0"
  moreover have "leading_space s \<le> length s" by (rule leading_space_le)
  ultimately show "(drop (leading_space s) s, s) \<in> measure length" by simp
qed

function TrimRight_space :: "string \<Rightarrow> string" where
  "TrimRight_space s =
     (if trailing_space s = 0 then s
      else TrimRight_space (take (length s - trailing_space s) s))"
  by pat_completeness auto
termination
proof (relation "measure length")
  show "wf (measure length)" by simp
next
  fix s :: string
  assume "trailing_space s \<noteq> 0"
  moreover have "trailing_space s \<le> length s" by (rule trailing_space_le)
  ultimately show "(take (length s - trailing_space s) s, s) \<in> measure length" by simp
qed

declare TrimLeft_space.simps [simp del]
declare TrimRight_space.simps [simp del]

text \<open>\<open>strings.TrimSpace\<close>: the leading and the trailing space runes are cut off.\<close>

definition TrimSpace :: "string \<Rightarrow> string" where
  "TrimSpace s = TrimRight_space (TrimLeft_space s)"

text \<open>
  \<open>strconv.Atoi\<close> on a 64-bit target: the value and the error. A text that is not an
  optional sign and digits is a syntax error with value 0; a value outside the range of
  \<open>int\<close> is a range error with the nearest bound as value. The parser drops the error
  and keeps the value.
\<close>

datatype NumError = ErrSyntax | ErrRange

definition digit_val :: "char \<Rightarrow> int" where
  "digit_val c = int (length (takeWhile (\<lambda>d. d \<noteq> c) ''0123456789''))"

definition decimal :: "string \<Rightarrow> int" where
  "decimal ds = foldl (\<lambda>n c. 10 * n + digit_val c) 0 ds"

definition Atoi :: "string \<Rightarrow> int \<times> NumError option" where
  "Atoi s =
     (let (neg, ds) =
            (case s of
               [] \<Rightarrow> (False, [])
             | c # cs \<Rightarrow>
                 if c = CHR ''+'' then (False, cs)
                 else if c = CHR ''-'' then (True, cs)
                 else (False, s))
      in if ds = [] \<or> \<not> list_all digit ds then (0, Some ErrSyntax)
         else let un = decimal ds
              in if \<not> neg \<and> un \<ge> 2 ^ 63 then (2 ^ 63 - 1, Some ErrRange)
                 else if neg \<and> un > 2 ^ 63 then (- (2 ^ 63), Some ErrRange)
                 else (if neg then - un else un, None))"

section \<open>Scan parser: the patterns\<close>

text \<open>
  \<open>regexp.MustCompile(`(?m)^BSS `).Split(output, -1)\<close>: the text is cut at every
  \<open>BSS \<close> that starts a line; the pieces between the matches are returned, the first
  one being the text before the first match. \<open>bol\<close> says whether the position is the
  start of a line. The result is never empty; for the empty text it is the one empty
  string.
\<close>

fun Split_BSS :: "bool \<Rightarrow> string \<Rightarrow> string list" where
  "Split_BSS bol [] = [[]]"
| "Split_BSS bol (c # cs) =
     (if bol \<and> prefix ''BSS '' (c # cs) then [] # Split_BSS False (drop 3 cs)
      else (case Split_BSS (c = newline) cs of
              [] \<Rightarrow> [[c]]
            | b # bs \<Rightarrow> (c # b) # bs))"

declare Split_BSS.simps(2) [simp del]

text \<open>
  \<open>FindStringSubmatch\<close> of a pattern that is not anchored: the match that starts
  leftmost. \<open>m\<close> matches the pattern at the start of its argument and returns group 1.
\<close>

fun find_leftmost :: "(string \<Rightarrow> 'a option) \<Rightarrow> string \<Rightarrow> 'a option" where
  "find_leftmost m [] = m []"
| "find_leftmost m (c # cs) =
     (case m (c # cs) of Some g \<Rightarrow> Some g | None \<Rightarrow> find_leftmost m cs)"

text \<open>Group 1 of \<open>^([0-9a-fA-F:]{17})\<close>, anchored at the start of the block.\<close>

definition match_BSSID :: "string \<Rightarrow> string option" where
  "match_BSSID block =
     (if 17 \<le> length block \<and> list_all hexColon (take 17 block) then Some (take 17 block)
      else None)"

text \<open>
  Group 1 of \<open>(?m)^[ \t]+SSID:[ \t]*(.*)$\<close> at the start of a line: the rest of the line
  after the blanks that follow the label.
\<close>

definition match_SSID_at :: "string \<Rightarrow> string option" where
  "match_SSID_at s =
     (let r = dropWhile blank s
      in if r \<noteq> s \<and> prefix ''SSID:'' r
         then Some (takeWhile (\<lambda>c. c \<noteq> newline) (dropWhile blank (drop 5 r)))
         else None)"

fun find_SSID :: "bool \<Rightarrow> string \<Rightarrow> string option" where
  "find_SSID bol [] = None"
| "find_SSID bol (c # cs) =
     (case (if bol then match_SSID_at (c # cs) else None) of
        Some g \<Rightarrow> Some g
      | None \<Rightarrow> find_SSID (c = newline) cs)"

text \<open>Group 1 of \<open>signal:\s*(-?\d+)\<close>.\<close>

definition match_signal_at :: "string \<Rightarrow> string option" where
  "match_signal_at s =
     (if prefix ''signal:'' s
      then let r = dropWhile re_space (drop 7 s);
               sign = (if prefix ''-'' r then ''-'' else []);
               ds = takeWhile digit (drop (length sign) r)
           in if ds = [] then None else Some (sign @ ds)
      else None)"

text \<open>Group 1 of \<open>freq:\s*(\d+)\<close>.\<close>

definition match_freq_at :: "string \<Rightarrow> string option" where
  "match_freq_at s =
     (if prefix ''freq:'' s
      then let ds = takeWhile digit (dropWhile re_space (drop 5 s))
           in if ds = [] then None else Some ds
      else None)"

text \<open>Group 1 of \<open>DS Parameter set: channel (\d+)\<close>.\<close>

definition channel_marker :: string where
  "channel_marker = ''DS Parameter set: channel ''"

definition match_channel_at :: "string \<Rightarrow> string option" where
  "match_channel_at s =
     (if prefix channel_marker s
      then let ds = takeWhile digit (drop (length channel_marker) s)
           in if ds = [] then None else Some ds
      else None)"

section \<open>Scan parser: the functions of scanner.go\<close>

definition parseSecurity :: "string \<Rightarrow> string" where
  "parseSecurity block =
     (let hasRSN = Contains block ''RSN:'';
          hasWPA = Contains block ''WPA:'';
          hasSAE = Contains block ''SAE''
      in if hasSAE then ''WPA3''
         else if hasRSN \<and> hasWPA then ''WPA2/WPA''
         else if hasRSN then ''WPA2''
         else if hasWPA then ''WPA''
         else if Contains block ''Privacy'' then ''WEP''
         else ''OPEN'')"

definition freqToChannel :: "int \<Rightarrow> int" where
  "freqToChannel freq =
     (if freq \<ge> 2412 \<and> freq \<le> 2472 then go_div (freq - 2407) 5
      else if freq = 2484 then 14
      else if freq \<ge> 5180 \<and> freq \<le> 5825 then go_div (freq - 5000) 5
      else if freq \<ge> 5955 \<and> freq \<le> 7115 then go_div (freq - 5950) 5
      else 0)"

text \<open>
  The body of the loop of \<open>parseScanOutput\<close> for one block: \<open>None\<close> is \<open>continue\<close>,
  \<open>Some n\<close> the network appended. \<open>now\<close> is the reading of \<open>time.Now()\<close> for this block.
\<close>

definition parseBlock :: "time \<Rightarrow> string \<Rightarrow> Network option" where
  "parseBlock now block =
     (if TrimSpace block = [] then None
      else case match_BSSID block of
        None \<Rightarrow> None
      | Some m1 \<Rightarrow>
          let n = \<lparr>BSSID = [], SSID = [], Signal = 0, Frequency = 0, Channel = 0,
                   Security = [], LastSeen = now\<rparr>;
              n = n\<lparr>BSSID := ToUpper m1\<rparr>;
              n = (case find_SSID True block of
                     Some m \<Rightarrow> n\<lparr>SSID := TrimSpace m\<rparr>
                   | None \<Rightarrow> n);
              n = (if SSID n = [] then n\<lparr>SSID := ''<hidden>''\<rparr> else n);
              n = (case find_leftmost match_signal_at block of
                     Some m \<Rightarrow> n\<lparr>Signal := fst (Atoi m)\<rparr>
                   | None \<Rightarrow> n);
              n = (case find_leftmost match_freq_at block of
                     Some m \<Rightarrow> n\<lparr>Frequency := fst (Atoi m)\<rparr>
                   | None \<Rightarrow> n);
              n = (case find_leftmost match_channel_at block of
                     Some m \<Rightarrow> n\<lparr>Channel := fst (Atoi m)\<rparr>
                   | None \<Rightarrow> n\<lparr>Channel := freqToChannel (Frequency n)\<rparr>);
              n = n\<lparr>Security := parseSecurity block\<rparr>
          in Some n)"

text \<open>The loop over the blocks; \<open>clock i\<close> is the clock reading at block number \<open>i\<close>.\<close>

fun parse_blocks :: "(nat \<Rightarrow> time) \<Rightarrow> nat \<Rightarrow> string list \<Rightarrow> Network list" where
  "parse_blocks clock i [] = []"
| "parse_blocks clock i (block # blocks) =
     (case parseBlock (clock i) block of
        None \<Rightarrow> parse_blocks clock (Suc i) blocks
      | Some n \<Rightarrow> n # parse_blocks clock (Suc i) blocks)"

text \<open>
  \<open>func parseScanOutput(output string) []Network\<close>. The library function \<open>sort.Slice\<close>
  is a parameter: \<open>sort_Slice less xs\<close> is the slice after the call.
\<close>

definition parseScanOutput ::
  "((Network \<Rightarrow> Network \<Rightarrow> bool) \<Rightarrow> Network list \<Rightarrow> Network list) \<Rightarrow>
   (nat \<Rightarrow> time) \<Rightarrow> string \<Rightarrow> Network list" where
  "parseScanOutput sort_Slice clock output =
     (let blocks = Split_BSS True output;
          networks = parse_blocks clock 0 blocks
      in sort_Slice (\<lambda>a b. Signal a > Signal b) networks)"

section \<open>Auxiliary definitions for the statements and proofs\<close>

text \<open>The Go slice expression \<open>xs[len(xs)-n:]\<close>, for any length of \<open>xs\<close>.\<close>

definition lastN :: "nat \<Rightarrow> 'a list \<Rightarrow> 'a list" where
  "lastN n xs = drop (length xs - n) xs"

text \<open>The elements of a list in the order of their first occurrence.\<close>

definition firsts :: "'a list \<Rightarrow> 'a list" where
  "firsts xs = rev (remdups (rev xs))"

text \<open>The retained readings of an address (none when it is not tracked).\<close>

definition hist :: "Session \<Rightarrow> string \<Rightarrow> int list" where
  "hist s a = (case states s a of None \<Rightarrow> [] | Some h \<Rightarrow> SignalHistory h)"

text \<open>The readings for an address that a batch carries, in batch order.\<close>

definition signals_for :: "string \<Rightarrow> Network list \<Rightarrow> int list" where
  "signals_for a networks = map Signal (filter (\<lambda>n. BSSID n = a) networks)"

text \<open>The invariant of one history, and of a session at clock reading \<open>t\<close>.\<close>

definition hist_ok :: "NetworkState \<Rightarrow> bool" where
  "hist_ok h \<longleftrightarrow>
     list_all (\<lambda>x. MinSignal h \<le> x \<and> x \<le> MaxSignal h) (SignalHistory h) \<and>
     length (SignalHistory h) \<le> maxHistory \<and> FirstSeen h \<le> ns_LastSeen h"

definition sess_ok :: "time \<Rightarrow> Session \<Rightarrow> bool" where
  "sess_ok t s \<longleftrightarrow> (\<forall>a h. states s a = Some h \<longrightarrow> hist_ok h \<and> ns_LastSeen h \<le> t)"

text \<open>
  A network with a given address and reading; a run of fifteen updates for one address
  with distinct readings; a run of three updates with the readings -40, -70, -55.
\<close>

definition sample_Network :: "string \<Rightarrow> int \<Rightarrow> Network" where
  "sample_Network bssid sig =
     \<lparr>BSSID = bssid, SSID = ''<hidden>'', Signal = sig, Frequency = 0, Channel = 0,
      Security = ''OPEN'', LastSeen = 0\<rparr>"

definition sample_calls :: "(time \<times> Network list) list" where
  "sample_calls = map (\<lambda>i. (i, [sample_Network ''AA:BB:CC:DD:EE:FF'' (- 40 - i)]))
     [1, 2, 3, 4, 5, 6, 7, 8, 9, 10, 11, 12, 13, 14, 15]"

definition extrema_calls :: "(time \<times> Network list) list" where
  "extrema_calls =
     [(1, [sample_Network ''AA:BB:CC:DD:EE:FF'' (- 40)]),
      (2, [sample_Network ''AA:BB:CC:DD:EE:FF'' (- 70)]),
      (3, [sample_Network ''AA:BB:CC:DD:EE:FF'' (- 55)])]"

text \<open>
  The library function \<open>sort.Slice\<close> is not part of the repository. Its documentation
  asks for a \<open>less\<close> that is a strict weak ordering, promises the slice sorted by it, and
  says: the sort is not guaranteed to be stable, equal elements may be reversed from
  their original order. The contract below says that much and no more.
\<close>

definition strict_weak_order :: "('a \<Rightarrow> 'a \<Rightarrow> bool) \<Rightarrow> bool" where
  "strict_weak_order lt \<longleftrightarrow>
     (\<forall>a. \<not> lt a a) \<and> (\<forall>a b c. lt a b \<and> lt b c \<longrightarrow> lt a c) \<and>
     (\<forall>a b c. \<not> lt a b \<and> \<not> lt b c \<longrightarrow> \<not> lt a c)"

definition sort_Slice_contract ::
  "(('a \<Rightarrow> 'a \<Rightarrow> bool) \<Rightarrow> 'a list \<Rightarrow> 'a list) \<Rightarrow> bool" where
  "sort_Slice_contract srt \<longleftrightarrow>
     (\<forall>lt xs. strict_weak_order lt \<longrightarrow>
        mset (srt lt xs) = mset xs \<and> sorted_wrt (\<lambda>a b. \<not> lt b a) (srt lt xs))"

text \<open>A sort that meets the contract: insertion sort.\<close>

fun insort_by :: "('a \<Rightarrow> 'a \<Rightarrow> bool) \<Rightarrow> 'a \<Rightarrow> 'a list \<Rightarrow> 'a list" where
  "insort_by lt x [] = [x]"
| "insort_by lt x (y # ys) = (if lt y x then y # insort_by lt x ys else x # y # ys)"

definition insertion_sort :: "('a \<Rightarrow> 'a \<Rightarrow> bool) \<Rightarrow> 'a list \<Rightarrow> 'a list" where
  "insertion_sort lt xs = foldr (insort_by lt) xs []"

text \<open>The first bytes of the space runes.\<close>

definition space_lead :: "char \<Rightarrow> bool" where
  "space_lead c \<longleftrightarrow> c \<in> hd ` set space_runes"

text \<open>
  The channel marker stands at offset \<open>i\<close> of the block: the label
  \<open>DS Parameter set: channel\<close> and a digit after it; and the digits that follow the label.
\<close>

definition channel_marker_at :: "string \<Rightarrow> nat \<Rightarrow> bool" where
  "channel_marker_at block i \<longleftrightarrow>
     prefix channel_marker (drop i block) \<and>
     (case drop (i + length channel_marker) block of [] \<Rightarrow> False | d # _ \<Rightarrow> digit d)"

definition channel_digits_at :: "string \<Rightarrow> nat \<Rightarrow> string" where
  "channel_digits_at block i = takeWhile digit (drop (i + length channel_marker) block)"

text \<open>
  The canonical form of an address in the words of the specification: six pairs of
  upper-case hexadecimal digits, separated by colons.
\<close>

definition canonical_address :: "string \<Rightarrow> bool" where
  "canonical_address a \<longleftrightarrow>
     length a = 17 \<and>
     list_all (\<lambda>i. if i mod 3 = 2 then a ! i = CHR '':''
                    else a ! i \<in> set ''0123456789ABCDEF'') [0..<17]"

text \<open>Sample scan texts and blocks.\<close>

definition text_of_lines :: "string list \<Rightarrow> string" where
  "text_of_lines ls = concat (map (\<lambda>l. l @ [newline]) ls)"

definition sample_blob :: string where
  "sample_blob = text_of_lines
     [''scan of wlan0'',
      ''BSS aa:bb:cc:dd:ee:ff(on wlan0)'',
      CHR 0x09 # ''freq: 5180'',
      CHR 0x09 # ''signal: -45.00 dBm'',
      CHR 0x09 # ''SSID: Home '',
      CHR 0x09 # ''DS Parameter set: channel 6'',
      CHR 0x09 # ''RSN:  * Version: 1'',
      CHR 0x09 # ''WPA:  * Version: 1'',
      ''BSS 11:22:33:44:55:66(on wlan0)'',
      CHR 0x09 # ''freq: 5500'',
      CHR 0x09 # ''signal: -30.00 dBm'',
      CHR 0x09 # ''SSID: '',
      CHR 0x09 # ''RSN:  * Authentication suites: SAE'',
      CHR 0x09 # ''BSS Load:'',
      ''BSS Load: station count''
     ]"

definition sample_block :: string where
  "sample_block = Split_BSS True sample_blob ! 1"

definition stray_blob :: string where
  "stray_blob = text_of_lines [''aa:bb:cc:dd:ee:ff is the default gateway'',
      ''BSS 11:22:33:44:55:66(on wlan0)'']"

definition loose_blob :: string where
  "loose_blob = text_of_lines [''BSS aabbccddeeff00112233'']"

definition huge_channel_block :: string where
  "huge_channel_block =
     ''aa:bb:cc:dd:ee:ff DS Parameter set: channel 9223372036854775808''"

definition channel_block :: string where
  "channel_block = ''aa:bb:cc:dd:ee:ff freq: 5180 DS Parameter set: channel 6''"

section \<open>Properties of the session tracker\<close>

lemma lastN_lastN_append: "lastN n (lastN n xs @ ys) = lastN n (xs @ ys)"
proof (cases "n \<le> length xs")
  case True
  then show ?thesis by (simp add: lastN_def add.commute)
next
  case False
  then show ?thesis by (simp add: lastN_def)
qed

lemma Update_body_other:
  "a \<noteq> BSSID net \<Longrightarrow> states (fst (Update_body now net acc)) a = states (fst acc) a"
  by (simp add: Update_body_def Let_def split: option.splits prod.splits)

lemma Update_body_snd:
  "snd (Update_body now net acc) =
     (if states (fst acc) (BSSID net) = None then snd acc @ [BSSID net] else snd acc)"
  by (simp add: Update_body_def Let_def split: option.splits prod.splits)

lemma Update_body_Some:
  assumes "states (fst acc) (BSSID net) = Some h"
  shows "states (fst (Update_body now net acc)) (BSSID net) =
     Some (h\<lparr>ns_LastSeen := now,
             MinSignal := min (MinSignal h) (Signal net),
             MaxSignal := max (MaxSignal h) (Signal net),
             SignalHistory := lastN maxHistory (SignalHistory h @ [Signal net])\<rparr>)"
  using assms by (auto simp add: Update_body_def Let_def lastN_def min_def max_def)

lemma Update_body_None:
  assumes "states (fst acc) (BSSID net) = None"
  shows "states (fst (Update_body now net acc)) (BSSID net) =
     Some \<lparr>ns_BSSID = BSSID net, FirstSeen = now, ns_LastSeen = now,
           SignalHistory = [Signal net], MinSignal = Signal net, MaxSignal = Signal net\<rparr>"
  using assms by (auto simp add: Update_body_def Let_def maxHistory_def)

lemma remdups_snoc: "remdups (ys @ [x]) = filter (\<lambda>y. y \<noteq> x) (remdups ys) @ [x]"
  by (induction ys) auto

lemma firsts_Nil: "firsts [] = []" by (simp add: firsts_def)

lemma firsts_Cons: "firsts (x # xs) = x # firsts (filter (\<lambda>y. y \<noteq> x) xs)"
  by (simp add: firsts_def remdups_snoc rev_filter remdups_filter)

lemma Update_loop_snd:
  "snd (Update_loop now nets acc) =
     snd acc @ firsts (filter (\<lambda>a. states (fst acc) a = None) (map BSSID nets))"
proof (induction nets arbitrary: acc)
  case Nil
  then show ?case by (simp add: firsts_Nil)
next
  case (Cons net nets)
  let ?acc = "Update_body now net acc"
  have eq: "\<And>a. (states (fst ?acc) a = None) = (states (fst acc) a = None \<and> a \<noteq> BSSID net)"
  proof -
    fix a
    show "(states (fst ?acc) a = None) = (states (fst acc) a = None \<and> a \<noteq> BSSID net)"
    proof (cases "a = BSSID net")
      case True
      then show ?thesis
        by (cases "states (fst acc) (BSSID net)") (simp_all add: Update_body_None Update_body_Some)
    next
      case False
      then show ?thesis by (simp add: Update_body_other)
    qed
  qed
  show ?case
  proof (cases "states (fst acc) (BSSID net) = None")
    case True
    then show ?thesis
      by (simp add: Cons.IH Update_body_snd eq firsts_Cons conj_commute)
  next
    case False
    have "filter (\<lambda>a. states (fst acc) a = None \<and> a \<noteq> BSSID net) (map BSSID nets)
        = filter (\<lambda>a. states (fst acc) a = None) (map BSSID nets)"
      using False by (intro filter_cong) auto
    then have "snd (Update_loop now nets ?acc) =
        snd ?acc @ firsts (filter (\<lambda>a. states (fst acc) a = None) (map BSSID nets))"
      by (simp add: Cons.IH eq)
    moreover have "snd ?acc = snd acc" using False by (simp add: Update_body_snd)
    ultimately show ?thesis using False by auto
  qed
qed

lemma Update_body_hist:
  "hist (fst (Update_body now net acc)) a =
     (if a = BSSID net then lastN maxHistory (hist (fst acc) a @ [Signal net])
      else hist (fst acc) a)"
proof (cases "a = BSSID net")
  case False
  then show ?thesis by (simp add: hist_def Update_body_other)
next
  case True
  show ?thesis
  proof (cases "states (fst acc) (BSSID net)")
    case None
    then show ?thesis using True
      by (simp add: hist_def Update_body_None lastN_def maxHistory_def)
  next
    case (Some h)
    then show ?thesis using True
      by (simp add: hist_def Update_body_Some)
  qed
qed

lemma Update_loop_hist:
  "hist (fst (Update_loop now nets acc)) a =
     (if signals_for a nets = [] then hist (fst acc) a
      else lastN maxHistory (hist (fst acc) a @ signals_for a nets))"
proof (induction nets arbitrary: acc)
  case Nil
  then show ?case by (simp add: signals_for_def)
next
  case (Cons net nets)
  show ?case
  proof (cases "a = BSSID net")
    case False
    then have "signals_for a (net # nets) = signals_for a nets"
      by (auto simp: signals_for_def)
    then show ?thesis using False by (simp add: Cons.IH Update_body_hist)
  next
    case True
    then have s: "signals_for a (net # nets) = Signal net # signals_for a nets"
      by (simp add: signals_for_def)
    have "hist (fst (Update_loop now (net # nets) acc)) a =
        (if signals_for a nets = [] then hist (fst (Update_body now net acc)) a
         else lastN maxHistory (hist (fst (Update_body now net acc)) a @ signals_for a nets))"
      by (simp add: Cons.IH)
    moreover have "hist (fst (Update_body now net acc)) a =
        lastN maxHistory (hist (fst acc) a @ [Signal net])"
      by (simp add: Update_body_hist True)
    ultimately show ?thesis
      by (simp add: s lastN_lastN_append)
  qed
qed

lemma Update_hist:
  "hist (fst (Update s now nets)) a =
     (if signals_for a nets = [] then hist s a
      else lastN maxHistory (hist s a @ signals_for a nets))"
  by (simp add: Update_def Update_loop_hist)

lemma Updates_hist:
  assumes "\<forall>c\<in>set calls. signals_for a (snd c) \<noteq> []" and "calls \<noteq> []"
  shows "hist (Updates s calls) a =
     lastN maxHistory (hist s a @ concat (map (\<lambda>c. signals_for a (snd c)) calls))"
  using assms
proof (induction calls arbitrary: s)
  case Nil
  then show ?case by simp
next
  case (Cons c cs)
  show ?case
  proof (cases "cs = []")
    case True
    then show ?thesis using Cons.prems by (simp add: Update_hist)
  next
    case False
    then have "hist (Updates (fst (Update s (fst c) (snd c))) cs) a =
        lastN maxHistory (hist (fst (Update s (fst c) (snd c))) a @
          concat (map (\<lambda>c. signals_for a (snd c)) cs))"
      using Cons.prems by (intro Cons.IH) auto
    then show ?thesis using Cons.prems
      by (simp add: Update_hist lastN_lastN_append)
  qed
qed

lemma lastN_append_long: "n \<le> length ys \<Longrightarrow> lastN n (xs @ ys) = lastN n ys"
  by (simp add: lastN_def)

lemma Update_body_dom:
  "dom (states (fst (Update_body now net acc))) = insert (BSSID net) (dom (states (fst acc)))"
proof (rule set_eqI)
  fix a
  show "a \<in> dom (states (fst (Update_body now net acc))) \<longleftrightarrow>
        a \<in> insert (BSSID net) (dom (states (fst acc)))"
    by (cases "a = BSSID net"; cases "states (fst acc) (BSSID net)")
       (auto simp add: Update_body_other Update_body_Some Update_body_None dom_def)
qed

lemma Update_loop_dom:
  "dom (states (fst (Update_loop now nets acc))) = dom (states (fst acc)) \<union> BSSID ` set nets"
  by (induction nets arbitrary: acc) (auto simp: Update_body_dom)

lemma Update_dom:
  "dom (states (fst (Update s now nets))) = dom (states s) \<union> BSSID ` set nets"
  by (simp add: Update_def Update_loop_dom)

lemma Updates_dom_mono:
  "a \<in> dom (states s) \<Longrightarrow> a \<in> dom (states (Updates s calls))"
  by (induction calls arbitrary: s) (simp_all add: Update_dom)

lemma set_lastN: "set (lastN n xs) \<subseteq> set xs"
  by (simp add: lastN_def set_drop_subset)

lemma length_lastN: "length (lastN n xs) \<le> n"
  by (simp add: lastN_def)

lemma Update_body_frame:
  assumes "states (fst acc) a = Some h"
  shows "\<exists>h'. states (fst (Update_body now net acc)) a = Some h' \<and>
           FirstSeen h' = FirstSeen h \<and> ns_BSSID h' = ns_BSSID h \<and>
           MinSignal h' \<le> MinSignal h \<and> MaxSignal h \<le> MaxSignal h'"
proof (cases "a = BSSID net")
  case True
  then show ?thesis using assms by (simp add: Update_body_Some)
next
  case False
  then show ?thesis using assms by (simp add: Update_body_other)
qed

lemma Update_loop_frame:
  assumes "states (fst acc) a = Some h"
  shows "\<exists>h'. states (fst (Update_loop now nets acc)) a = Some h' \<and>
           FirstSeen h' = FirstSeen h \<and> ns_BSSID h' = ns_BSSID h \<and>
           MinSignal h' \<le> MinSignal h \<and> MaxSignal h \<le> MaxSignal h'"
  using assms
proof (induction nets arbitrary: acc h)
  case Nil
  then show ?case by simp
next
  case (Cons net nets)
  from Update_body_frame [OF Cons.prems, of now net]
  obtain h1 where h1: "states (fst (Update_body now net acc)) a = Some h1"
    "FirstSeen h1 = FirstSeen h" "ns_BSSID h1 = ns_BSSID h"
    "MinSignal h1 \<le> MinSignal h" "MaxSignal h \<le> MaxSignal h1" by blast
  from Cons.IH [OF h1(1)]
  obtain h' where h': "states (fst (Update_loop now nets (Update_body now net acc))) a = Some h'"
    "FirstSeen h' = FirstSeen h1" "ns_BSSID h' = ns_BSSID h1"
    "MinSignal h' \<le> MinSignal h1" "MaxSignal h1 \<le> MaxSignal h'" by blast
  show ?case using h1 h' by simp
qed

lemma Update_frame_aux:
  assumes "states s a = Some h"
  shows "\<exists>h'. states (fst (Update s now nets)) a = Some h' \<and>
           FirstSeen h' = FirstSeen h \<and> ns_BSSID h' = ns_BSSID h \<and>
           MinSignal h' \<le> MinSignal h \<and> MaxSignal h \<le> MaxSignal h'"
  unfolding Update_def using Update_loop_frame [of "(s, [])" a h now nets] assms by simp

lemma Updates_frame_aux:
  assumes "states s a = Some h"
  shows "\<exists>h'. states (Updates s calls) a = Some h' \<and>
           FirstSeen h' = FirstSeen h \<and> ns_BSSID h' = ns_BSSID h \<and>
           MinSignal h' \<le> MinSignal h \<and> MaxSignal h \<le> MaxSignal h'"
  using assms
proof (induction calls arbitrary: s h)
  case Nil
  then show ?case by simp
next
  case (Cons c cs)
  from Update_frame_aux [OF Cons.prems, of "fst c" "snd c"]
  obtain h1 where h1: "states (fst (Update s (fst c) (snd c))) a = Some h1"
    "FirstSeen h1 = FirstSeen h" "ns_BSSID h1 = ns_BSSID h"
    "MinSignal h1 \<le> MinSignal h" "MaxSignal h \<le> MaxSignal h1" by blast
  from Cons.IH [OF h1(1)]
  obtain h' where h': "states (Updates (fst (Update s (fst c) (snd c))) cs) a = Some h'"
    "FirstSeen h' = FirstSeen h1" "ns_BSSID h' = ns_BSSID h1"
    "MinSignal h' \<le> MinSignal h1" "MaxSignal h1 \<le> MaxSignal h'" by blast
  show ?case using h1 h' by simp
qed

lemma Updates_append: "Updates s (xs @ ys) = Updates (Updates s xs) ys"
  by (induction xs arbitrary: s) simp_all

lemma Update_body_ok:
  assumes "sess_ok t (fst acc)" and "t \<le> now"
  shows "sess_ok now (fst (Update_body now net acc))"
  unfolding sess_ok_def
proof (intro allI impI)
  fix a h'
  assume h': "states (fst (Update_body now net acc)) a = Some h'"
  show "hist_ok h' \<and> ns_LastSeen h' \<le> now"
  proof (cases "a = BSSID net")
    case False
    then have "states (fst acc) a = Some h'" using h' by (simp add: Update_body_other)
    with assms(1) have "hist_ok h' \<and> ns_LastSeen h' \<le> t"
      unfolding sess_ok_def by blast
    then show ?thesis using assms(2) by simp
  next
    case True
    show ?thesis
    proof (cases "states (fst acc) (BSSID net)")
      case None
      have "h' = \<lparr>ns_BSSID = BSSID net, FirstSeen = now, ns_LastSeen = now,
           SignalHistory = [Signal net], MinSignal = Signal net, MaxSignal = Signal net\<rparr>"
        using h' True Update_body_None [OF None, of now] by simp
      then show ?thesis
        by (simp add: hist_ok_def maxHistory_def)
    next
      case (Some h)
      with assms(1) have "hist_ok h \<and> ns_LastSeen h \<le> t"
        unfolding sess_ok_def by blast
      then have ok: "hist_ok h" "ns_LastSeen h \<le> t" by simp_all
      have eq: "h' = h\<lparr>ns_LastSeen := now,
             MinSignal := min (MinSignal h) (Signal net),
             MaxSignal := max (MaxSignal h) (Signal net),
             SignalHistory := lastN maxHistory (SignalHistory h @ [Signal net])\<rparr>"
        using h' True Update_body_Some [OF Some, of now] by simp
      have old: "\<And>x. x \<in> set (SignalHistory h) \<Longrightarrow> MinSignal h \<le> x \<and> x \<le> MaxSignal h"
        using ok(1) by (simp add: hist_ok_def list_all_iff)
      have "min (MinSignal h) (Signal net) \<le> x \<and> x \<le> max (MaxSignal h) (Signal net)"
        if "x \<in> set (lastN maxHistory (SignalHistory h @ [Signal net]))" for x
      proof -
        from that set_lastN [of maxHistory "SignalHistory h @ [Signal net]"]
        have "x \<in> set (SignalHistory h) \<or> x = Signal net" by auto
        then show ?thesis
        proof
          assume "x \<in> set (SignalHistory h)"
          from old [OF this] show ?thesis by linarith
        next
          assume "x = Signal net"
          then show ?thesis by simp
        qed
      qed
      then have "\<forall>x\<in>set (lastN maxHistory (SignalHistory h @ [Signal net])).
              min (MinSignal h) (Signal net) \<le> x \<and> x \<le> max (MaxSignal h) (Signal net)"
        by blast
      moreover have "FirstSeen h \<le> now" using ok assms(2) by (simp add: hist_ok_def)
      ultimately show ?thesis
        by (simp add: eq hist_ok_def list_all_iff length_lastN)
    qed
  qed
qed

lemma Update_loop_ok:
  "sess_ok now (fst acc) \<Longrightarrow> sess_ok now (fst (Update_loop now nets acc))"
  by (induction nets arbitrary: acc) (simp_all add: Update_body_ok)

lemma sess_ok_mono: "sess_ok t s \<Longrightarrow> t \<le> t' \<Longrightarrow> sess_ok t' s"
  by (fastforce simp: sess_ok_def)

lemma Update_ok: "sess_ok t s \<Longrightarrow> t \<le> now \<Longrightarrow> sess_ok now (fst (Update s now nets))"
  by (simp add: Update_def Update_loop_ok sess_ok_mono)

lemma Updates_ok:
  "sess_ok t s \<Longrightarrow> sorted (map fst calls) \<Longrightarrow> \<forall>c\<in>set calls. t \<le> fst c \<Longrightarrow>
     \<exists>t'. sess_ok t' (Updates s calls)"
proof (induction calls arbitrary: s t)
  case Nil
  then show ?case by auto
next
  case (Cons c cs)
  have "sess_ok (fst c) (fst (Update s (fst c) (snd c)))"
    using Cons.prems by (intro Update_ok) auto
  moreover have "sorted (map fst cs)" "\<forall>c'\<in>set cs. fst c \<le> fst c'"
    using Cons.prems by auto
  ultimately show ?case using Cons.IH by simp
qed

lemma NewSession_ok: "sess_ok t NewSession"
  by (simp add: sess_ok_def NewSession_def)

subsection \<open>The claims about \<open>Update\<close>\<close>

text \<open>
  Claim C1. For every session and every batch, \<open>Update\<close> returns exactly the addresses
  of the batch for which the session held no state before the call, each once, in the
  order of their first appearance in the batch (\<open>remdups\<close> keeps the last occurrence of
  every element, so between the two reversals it keeps the first). Hence an address
  that was tracked before a call, or that the previous call carried, is not in the list
  the call returns.
\<close>

theorem Update_newly_discovered:
  "snd (Update s now nets) =
     rev (remdups (rev (filter (\<lambda>a. Get s a = None) (map BSSID nets)))) \<and>
   set (snd (Update s now nets)) = {a \<in> BSSID ` set nets. Get s a = None} \<and>
   distinct (snd (Update s now nets)) \<and>
   set (snd (Update (fst (Update s now nets)) now' nets')) \<inter>
     (dom (states s) \<union> BSSID ` set nets) = {}"
proof -
  have 1: "\<And>s now nets. snd (Update s now nets) =
     rev (remdups (rev (filter (\<lambda>a. Get s a = None) (map BSSID nets))))"
    by (simp add: Update_def Update_loop_snd firsts_def Get_def)
  have 2: "set (snd (Update s now nets)) = {a \<in> BSSID ` set nets. Get s a = None}"
    unfolding 1 by auto
  have 3: "distinct (snd (Update s now nets))"
    unfolding 1 by simp
  have "set (snd (Update (fst (Update s now nets)) now' nets'))
      \<subseteq> - dom (states (fst (Update s now nets)))"
    unfolding 1 by (auto simp: Get_def)
  then have 4: "set (snd (Update (fst (Update s now nets)) now' nets')) \<inter>
     (dom (states s) \<union> BSSID ` set nets) = {}"
    by (auto simp: Update_dom)
  from 1 2 3 4 show ?thesis by blast
qed

theorem Update_newly_discovered_witness:
  "snd (Update NewSession 1 [sample_Network ''AA:BB:CC:DD:EE:FF'' (- 40)]) = [''AA:BB:CC:DD:EE:FF''] \<and>
   snd (Update (fst (Update NewSession 1 [sample_Network ''AA:BB:CC:DD:EE:FF'' (- 40)])) 2
          [sample_Network ''AA:BB:CC:DD:EE:FF'' (- 41)]) = []"
proof -
  let ?first = "[sample_Network ''AA:BB:CC:DD:EE:FF'' (- 40)]"
  let ?second = "[sample_Network ''AA:BB:CC:DD:EE:FF'' (- 41)]"
  from Update_newly_discovered [of NewSession 1 ?first 2 ?second]
  have 1: "snd (Update NewSession 1 ?first) =
      rev (remdups (rev (filter (\<lambda>a. Get NewSession a = None) (map BSSID ?first))))"
    and 2: "set (snd (Update (fst (Update NewSession 1 ?first)) 2 ?second)) \<inter>
      (dom (states NewSession) \<union> BSSID ` set ?first) = {}"
    by blast+
  have 3: "snd (Update NewSession 1 ?first) = [''AA:BB:CC:DD:EE:FF'']"
    unfolding 1 by (simp add: sample_Network_def Get_def NewSession_def)
  from Update_newly_discovered [of "fst (Update NewSession 1 ?first)" 2 ?second 0 "[]"]
  have "set (snd (Update (fst (Update NewSession 1 ?first)) 2 ?second)) =
      {a \<in> BSSID ` set ?second. Get (fst (Update NewSession 1 ?first)) a = None}"
    by blast
  then have sub: "set (snd (Update (fst (Update NewSession 1 ?first)) 2 ?second)) \<subseteq>
      {''AA:BB:CC:DD:EE:FF''}"
    by (auto simp add: sample_Network_def)
  have notin: "''AA:BB:CC:DD:EE:FF'' \<notin>
      set (snd (Update (fst (Update NewSession 1 ?first)) 2 ?second))"
    using 2 by (auto simp add: sample_Network_def)
  have empty: "A = {}" if "A \<subseteq> {x}" "x \<notin> A" for A and x :: string
    using that by auto
  have "set (snd (Update (fst (Update NewSession 1 ?first)) 2 ?second)) = {}"
    using sub notin by (rule empty)
  then show ?thesis using 3 by simp
qed

text \<open>
  Claim C6. In every session reached from the empty one by calls of \<open>Update\<close> whose clock
  readings do not decrease, every history has its readings between \<open>MinSignal\<close> and
  \<open>MaxSignal\<close>, at most 10 of them, and \<open>FirstSeen\<close> not after \<open>LastSeen\<close>; and against
  every earlier point of the run, \<open>MinSignal\<close> has not grown and \<open>MaxSignal\<close> has not
  shrunk.
\<close>

theorem history_invariants:
  assumes "sorted (map fst calls)"
    and "Get (Updates NewSession calls) a = Some h"
  shows "(\<forall>x\<in>set (SignalHistory h). MinSignal h \<le> x \<and> x \<le> MaxSignal h) \<and>
         length (SignalHistory h) \<le> 10 \<and>
         FirstSeen h \<le> ns_LastSeen h \<and>
         (\<forall>k h0. Get (Updates NewSession (take k calls)) a = Some h0 \<longrightarrow>
            MinSignal h \<le> MinSignal h0 \<and> MaxSignal h0 \<le> MaxSignal h)"
proof -
  obtain t0 where "\<forall>c\<in>set calls. t0 \<le> fst c"
  proof (cases calls)
    case Nil
    then show ?thesis using that by simp
  next
    case (Cons c cs)
    then have "\<forall>c'\<in>set calls. fst c \<le> fst c'" using assms(1) by auto
    then show ?thesis using that by blast
  qed
  then obtain t' where "sess_ok t' (Updates NewSession calls)"
    using Updates_ok [OF NewSession_ok assms(1)] by blast
  then have ok: "hist_ok h" using assms(2) by (auto simp: sess_ok_def Get_def)
  have mono: "MinSignal h \<le> MinSignal h0 \<and> MaxSignal h0 \<le> MaxSignal h"
    if "Get (Updates NewSession (take k calls)) a = Some h0" for k h0
  proof -
    have "Updates NewSession calls = Updates (Updates NewSession (take k calls)) (drop k calls)"
      by (simp flip: Updates_append)
    then show ?thesis
      using Updates_frame_aux [of "Updates NewSession (take k calls)" a h0 "drop k calls"]
        that assms(2) by (auto simp: Get_def)
  qed
  show ?thesis using ok mono
    by (simp add: hist_ok_def list_all_iff maxHistory_def)
qed

theorem history_invariants_witness:
  "sorted (map fst extrema_calls) \<and>
   Get (Updates NewSession extrema_calls) ''AA:BB:CC:DD:EE:FF'' =
     Some \<lparr>ns_BSSID = ''AA:BB:CC:DD:EE:FF'', FirstSeen = 1, ns_LastSeen = 3,
            SignalHistory = [- 40, - 70, - 55], MinSignal = - 70, MaxSignal = - 40\<rparr> \<and>
   Get (Updates NewSession (take 1 extrema_calls)) ''AA:BB:CC:DD:EE:FF'' =
     Some \<lparr>ns_BSSID = ''AA:BB:CC:DD:EE:FF'', FirstSeen = 1, ns_LastSeen = 1,
            SignalHistory = [- 40], MinSignal = - 40, MaxSignal = - 40\<rparr> \<and>
   (- 70 :: int) \<le> - 40 \<and> (1::int) \<le> 3 \<and> length [- 40, - 70, - 55 :: int] \<le> 10"
proof -
  have s: "sorted (map fst extrema_calls)"
    by (simp add: extrema_calls_def)
  have g: "Get (Updates NewSession extrema_calls) ''AA:BB:CC:DD:EE:FF'' =
     Some \<lparr>ns_BSSID = ''AA:BB:CC:DD:EE:FF'', FirstSeen = 1, ns_LastSeen = 3,
            SignalHistory = [- 40, - 70, - 55], MinSignal = - 70, MaxSignal = - 40\<rparr>"
    by code_simp
  have g1: "Get (Updates NewSession (take 1 extrema_calls)) ''AA:BB:CC:DD:EE:FF'' =
     Some \<lparr>ns_BSSID = ''AA:BB:CC:DD:EE:FF'', FirstSeen = 1, ns_LastSeen = 1,
            SignalHistory = [- 40], MinSignal = - 40, MaxSignal = - 40\<rparr>"
    by code_simp
  from history_invariants [OF s g] g1
  have "MinSignal \<lparr>ns_BSSID = ''AA:BB:CC:DD:EE:FF'', FirstSeen = 1, ns_LastSeen = 3,
            SignalHistory = [- 40, - 70, - 55], MinSignal = - 70, MaxSignal = - 40\<rparr> \<le>
        MinSignal \<lparr>ns_BSSID = ''AA:BB:CC:DD:EE:FF'', FirstSeen = 1, ns_LastSeen = 1,
            SignalHistory = [- 40], MinSignal = - 40, MaxSignal = - 40\<rparr>"
    by blast
  then have "(- 70 :: int) \<le> - 40" by simp
  with s g g1 show ?thesis by simp
qed

text \<open>
  Claim C7. After more than 10 calls of \<open>Update\<close>, each carrying one reading for an
  address, the retained readings of the address are exactly the 10 most recent ones, in
  the order of arrival, whatever the session was before.
\<close>

theorem history_window:
  assumes one: "\<forall>c\<in>set calls. length (signals_for a (snd c)) = 1"
    and many: "length calls > 10"
  shows "\<exists>h. Get (Updates s calls) a = Some h \<and>
           SignalHistory h =
             drop (length calls - 10) (concat (map (\<lambda>c. signals_for a (snd c)) calls)) \<and>
           length (SignalHistory h) = 10"
proof -
  let ?sigs = "concat (map (\<lambda>c. signals_for a (snd c)) calls)"
  have len: "length ?sigs = length calls"
    using one by (induction calls) simp_all
  have ne: "\<forall>c\<in>set calls. signals_for a (snd c) \<noteq> []"
    using one by fastforce
  have "calls \<noteq> []" using many by auto
  with ne have h: "hist (Updates s calls) a = lastN maxHistory (hist s a @ ?sigs)"
    by (rule Updates_hist)
  have "lastN maxHistory (hist s a @ ?sigs) = lastN maxHistory ?sigs"
    using many len by (intro lastN_append_long) (simp add: maxHistory_def)
  with h have h': "hist (Updates s calls) a = drop (length calls - 10) ?sigs"
    by (simp add: lastN_def len maxHistory_def)
  obtain c cs where c: "calls = c # cs" using \<open>calls \<noteq> []\<close> by (cases calls) auto
  have "signals_for a (snd c) \<noteq> []" using ne c by simp
  then have "a \<in> BSSID ` set (snd c)" by (auto simp: signals_for_def filter_empty_conv)
  then have "a \<in> dom (states (fst (Update s (fst c) (snd c))))" by (simp add: Update_dom)
  then have "a \<in> dom (states (Updates s calls))" unfolding c by (simp add: Updates_dom_mono)
  then obtain h where hh: "states (Updates s calls) a = Some h" by auto
  then have "SignalHistory h = drop (length calls - 10) ?sigs"
    using h' by (simp add: hist_def)
  moreover have "length (drop (length calls - 10) ?sigs) = 10" using many len by simp
  ultimately show ?thesis using hh by (simp add: Get_def)
qed

theorem history_window_witness:
  "\<exists>h. Get (Updates NewSession sample_calls) ''AA:BB:CC:DD:EE:FF'' = Some h \<and>
     SignalHistory h = [- 46, - 47, - 48, - 49, - 50, - 51, - 52, - 53, - 54, - 55] \<and>
     length (SignalHistory h) = 10"
  using history_window [of sample_calls "''AA:BB:CC:DD:EE:FF''" NewSession]
  by (simp add: sample_calls_def sample_Network_def signals_for_def)

text \<open>
  Claim C10. A call of \<open>Update\<close> leaves the fields \<open>BSSID\<close> and \<open>FirstSeen\<close> of a history
  that exists before the call as they are: the history after the call differs from the
  one before at most in \<open>LastSeen\<close>, \<open>MinSignal\<close>, \<open>MaxSignal\<close> and \<open>SignalHistory\<close>.
\<close>

theorem Update_frame:
  assumes "Get s a = Some h"
  shows "\<exists>ls mn mx sh. Get (fst (Update s now nets)) a =
           Some (h\<lparr>ns_LastSeen := ls, MinSignal := mn, MaxSignal := mx, SignalHistory := sh\<rparr>)"
proof -
  from Update_frame_aux [of s a h now nets] assms
  obtain h' where h': "states (fst (Update s now nets)) a = Some h'"
    "FirstSeen h' = FirstSeen h" "ns_BSSID h' = ns_BSSID h" by (auto simp: Get_def)
  have "h' = h\<lparr>ns_LastSeen := ns_LastSeen h', MinSignal := MinSignal h',
      MaxSignal := MaxSignal h', SignalHistory := SignalHistory h'\<rparr>"
    using h'(2,3) by (cases h; cases h') simp
  with h'(1) have "Get (fst (Update s now nets)) a =
      Some (h\<lparr>ns_LastSeen := ns_LastSeen h', MinSignal := MinSignal h',
      MaxSignal := MaxSignal h', SignalHistory := SignalHistory h'\<rparr>)"
    by (simp add: Get_def)
  then show ?thesis by blast
qed

theorem Update_frame_witness:
  "\<exists>ls mn mx sh. Get (fst (Update (Updates NewSession extrema_calls) 4
       [sample_Network ''AA:BB:CC:DD:EE:FF'' (- 90)])) ''AA:BB:CC:DD:EE:FF'' =
     Some \<lparr>ns_BSSID = ''AA:BB:CC:DD:EE:FF'', FirstSeen = 1, ns_LastSeen = ls,
            SignalHistory = sh, MinSignal = mn, MaxSignal = mx\<rparr>"
proof -
  have g: "Get (Updates NewSession extrema_calls) ''AA:BB:CC:DD:EE:FF'' =
     Some \<lparr>ns_BSSID = ''AA:BB:CC:DD:EE:FF'', FirstSeen = 1, ns_LastSeen = 3,
            SignalHistory = [- 40, - 70, - 55], MinSignal = - 70, MaxSignal = - 40\<rparr>"
    by code_simp
  from Update_frame [OF g, of 4 "[sample_Network ''AA:BB:CC:DD:EE:FF'' (- 90)]"]
  show ?thesis by simp
qed

section \<open>Properties of the sparkline\<close>

lemma wrap64_id: "- (2 ^ 63) \<le> x \<Longrightarrow> x < 2 ^ 63 \<Longrightarrow> wrap64 x = x"
  unfolding wrap64_def by (simp add: signed_take_bit_int_eq_self)

lemma go_div_nonneg: "0 \<le> a \<Longrightarrow> 0 < b \<Longrightarrow> go_div a b = a div b"
  by (cases "a = 0") (simp_all add: go_div_def)

lemma go_div_neg: "a < 0 \<Longrightarrow> 0 < b \<Longrightarrow> go_div a b = - ((- a) div b)"
  by (simp add: go_div_def)

lemma spark_idx_range: "0 \<le> spark_idx s \<and> spark_idx s \<le> 7"
  by (simp add: spark_idx_def Let_def)

lemma spark_idx_eq:
  assumes "- (2 ^ 63) \<le> (s + 100) * 7" "(s + 100) * 7 < 2 ^ 63"
  shows "spark_idx s =
     max 0 (min 7 (if 0 \<le> (s + 100) * 7 then (s + 100) * 7 div 80 else - (- ((s + 100) * 7) div 80)))"
proof -
  define x where "x = (s + 100) * 7"
  have "- (2 ^ 63) \<le> s + 100" "s + 100 < 2 ^ 63" using assms by auto
  then have w1: "wrap64 (s + 100) = s + 100" by (rule wrap64_id)
  have w2: "wrap64 x = x" using assms unfolding x_def by (rule wrap64_id)
  have idx: "spark_idx s = (let idx = go_div x 80;
          idx = (if idx < 0 then 0 else idx);
          idx = (if idx > 7 then 7 else idx)
      in idx)"
    unfolding spark_idx_def w1 x_def [symmetric] w2 ..
  have "spark_idx s = max 0 (min 7 (if 0 \<le> x then x div 80 else - (- x div 80)))"
  proof (cases "0 \<le> x")
    case True
    then have "go_div x 80 = x div 80" by (simp add: go_div_nonneg)
    moreover have "0 \<le> x div 80" using True by simp
    ultimately show ?thesis using True unfolding idx
      by (simp add: Let_def max_def min_def)
  next
    case False
    then have g: "go_div x 80 = - (- x div 80)"
      by (simp add: go_div_neg)
    have "0 \<le> - x div 80" using False by simp
    then show ?thesis using False unfolding idx g
      by (simp add: Let_def max_def min_def)
  qed
  then show ?thesis unfolding x_def .
qed

text \<open>
  Claim C8, as the code has it. \<open>Sparkline\<close> renders one glyph per retained reading,
  the glyph of level \<open>clamp(q, 0, 7)\<close> where \<open>q\<close> is the integer quotient of
  \<open>(s + 100) * 7\<close> by 80, truncated toward zero and not rounded to the nearest integer,
  for every reading whose \<open>(s + 100) * 7\<close> is in the range of a 64-bit \<open>int\<close>. No reading
  gives the empty result, the reading -100 the glyph of level 0 and the reading -20 the
  glyph of level 7.
\<close>

theorem Sparkline_levels:
  assumes "\<forall>s\<in>set (SignalHistory ns). - (2 ^ 63) \<le> (s + 100) * 7 \<and> (s + 100) * 7 < 2 ^ 63"
  shows "Sparkline ns =
      map (\<lambda>s. sparkBlocks !
             nat (max 0 (min 7 (if 0 \<le> (s + 100) * 7 then (s + 100) * 7 div 80
                                else - (- ((s + 100) * 7) div 80)))))
          (SignalHistory ns) \<and>
    length (Sparkline ns) = length (SignalHistory ns) \<and>
    Sparkline (ns\<lparr>SignalHistory := []\<rparr>) = [] \<and>
    Sparkline (ns\<lparr>SignalHistory := [- 100]\<rparr>) = [sparkBlocks ! 0] \<and>
    Sparkline (ns\<lparr>SignalHistory := [- 20]\<rparr>) = [sparkBlocks ! 7]"
proof -
  have "map (\<lambda>sig. sparkBlocks ! nat (spark_idx sig)) (SignalHistory ns) =
      map (\<lambda>s. sparkBlocks !
             nat (max 0 (min 7 (if 0 \<le> (s + 100) * 7 then (s + 100) * 7 div 80
                                else - (- ((s + 100) * 7) div 80)))))
          (SignalHistory ns)"
    using assms by (intro map_cong refl) (simp add: spark_idx_eq)
  then have 1: "Sparkline ns =
      map (\<lambda>s. sparkBlocks !
             nat (max 0 (min 7 (if 0 \<le> (s + 100) * 7 then (s + 100) * 7 div 80
                                else - (- ((s + 100) * 7) div 80)))))
          (SignalHistory ns)"
    by (simp add: Sparkline_def)
  have 2: "length (Sparkline ns) = length (SignalHistory ns)"
    by (simp add: Sparkline_def)
  have 3: "Sparkline (ns\<lparr>SignalHistory := []\<rparr>) = []"
    by (simp add: Sparkline_def)
  have "spark_idx (- 100) = 0"
    using spark_idx_eq [of "- 100"] by simp
  then have 4: "Sparkline (ns\<lparr>SignalHistory := [- 100]\<rparr>) = [sparkBlocks ! 0]"
    by (simp add: Sparkline_def)
  have "spark_idx (- 20) = 7"
    using spark_idx_eq [of "- 20"] by simp
  then have 5: "Sparkline (ns\<lparr>SignalHistory := [- 20]\<rparr>) = [sparkBlocks ! 7]"
    by (simp add: Sparkline_def)
  from 1 2 3 4 5 show ?thesis by blast
qed

theorem Sparkline_levels_witness:
  "Sparkline \<lparr>ns_BSSID = ''AA:BB:CC:DD:EE:FF'', FirstSeen = 1, ns_LastSeen = 3,
      SignalHistory = [- 100, - 60, - 21, - 20, 0], MinSignal = - 100, MaxSignal = 0\<rparr> =
     [0x2581, 0x2584, 0x2587, 0x2588, 0x2588]"
  using Sparkline_levels [of "\<lparr>ns_BSSID = ''AA:BB:CC:DD:EE:FF'', FirstSeen = 1, ns_LastSeen = 3,
      SignalHistory = [- 100, - 60, - 21, - 20, 0], MinSignal = - 100, MaxSignal = 0\<rparr>"]
  by (simp add: sparkBlocks_def)

text \<open>
  The formula with rounding to the nearest integer does not describe the code: for the
  reading -21 the quotient is 553 / 80 = 6.9125, which rounds to 7, and the code renders
  the glyph of level 6.
\<close>

theorem Sparkline_round_counterexample:
  "Sparkline \<lparr>ns_BSSID = ''AA:BB:CC:DD:EE:FF'', FirstSeen = 1, ns_LastSeen = 1,
      SignalHistory = [- 21], MinSignal = - 21, MaxSignal = - 21\<rparr> = [sparkBlocks ! 6] \<and>
   map (\<lambda>s. sparkBlocks ! nat (spec_level s)) [- 21] = [sparkBlocks ! 7] \<and>
   sparkBlocks ! 6 \<noteq> sparkBlocks ! 7"
proof -
  have "spark_idx (- 21) = 6"
    using spark_idx_eq [of "- 21"] by simp
  then have 1: "Sparkline \<lparr>ns_BSSID = ''AA:BB:CC:DD:EE:FF'', FirstSeen = 1, ns_LastSeen = 1,
      SignalHistory = [- 21], MinSignal = - 21, MaxSignal = - 21\<rparr> = [sparkBlocks ! 6]"
    by (simp add: Sparkline_def)
  have "spec_level (- 21) = 7"
    by (simp add: spec_level_def round_def)
  then have 2: "map (\<lambda>s. sparkBlocks ! nat (spec_level s)) [- 21] = [sparkBlocks ! 7]"
    by simp
  have 3: "sparkBlocks ! 6 \<noteq> sparkBlocks ! 7"
    by (simp add: sparkBlocks_def)
  from 1 2 3 show ?thesis by blast
qed

section \<open>Sorting with \<open>sort.Slice\<close>\<close>

lemma mset_insort_by: "mset (insort_by lt x xs) = add_mset x (mset xs)"
  by (induction xs) simp_all

lemma mset_insertion_sort: "mset (insertion_sort lt xs) = mset xs"
  by (induction xs) (simp_all add: insertion_sort_def mset_insort_by)

lemma set_insort_by: "set (insort_by lt x xs) = insert x (set xs)"
  by (induction xs) auto

lemma sorted_insort_by:
  assumes "strict_weak_order lt" and "sorted_wrt (\<lambda>a b. \<not> lt b a) xs"
  shows "sorted_wrt (\<lambda>a b. \<not> lt b a) (insort_by lt x xs)"
  using assms(2)
proof (induction xs)
  case Nil
  then show ?case by simp
next
  case (Cons y ys)
  have irr: "\<And>a. \<not> lt a a" and tr: "\<And>a b c. lt a b \<Longrightarrow> lt b c \<Longrightarrow> lt a c"
    and ntr: "\<And>a b c. \<not> lt a b \<Longrightarrow> \<not> lt b c \<Longrightarrow> \<not> lt a c"
    using assms(1) unfolding strict_weak_order_def by blast+
  show ?case
  proof (cases "lt y x")
    case True
    then have "\<not> lt x y" using tr irr by blast
    moreover have "sorted_wrt (\<lambda>a b. \<not> lt b a) (insort_by lt x ys)"
      using Cons by simp
    ultimately show ?thesis using True Cons.prems
      by (auto simp: set_insort_by)
  next
    case False
    have "\<not> lt z x" if "z \<in> set ys" for z
    proof -
      have "\<not> lt z y" using Cons.prems that by auto
      with False show ?thesis using ntr by blast
    qed
    then show ?thesis using False Cons.prems by auto
  qed
qed

lemma sorted_insertion_sort:
  "strict_weak_order lt \<Longrightarrow> sorted_wrt (\<lambda>a b. \<not> lt b a) (insertion_sort lt xs)"
  by (induction xs) (simp_all add: insertion_sort_def sorted_insort_by)

lemma insertion_sort_contract: "sort_Slice_contract insertion_sort"
  by (simp add: sort_Slice_contract_def mset_insertion_sort sorted_insertion_sort)

lemma Signal_order: "strict_weak_order (\<lambda>a b :: Network. Signal a > Signal b)"
  unfolding strict_weak_order_def by auto

section \<open>Properties of the text primitives\<close>

lemma leading_space_0: "s \<noteq> [] \<Longrightarrow> \<not> space_lead (hd s) \<Longrightarrow> leading_space s = 0"
proof -
  assume ne: "s \<noteq> []" and nl: "\<not> space_lead (hd s)"
  have "\<not> prefix e s" if "e \<in> set space_runes" for e
  proof
    assume p: "prefix e s"
    have "e \<noteq> []" using space_runes_length [OF that] by auto
    with p ne have "hd e = hd s" by (cases e; cases s) auto
    moreover have "hd e \<in> hd ` set space_runes" using that by (rule imageI)
    ultimately show False using nl by (simp add: space_lead_def)
  qed
  then have "find (\<lambda>e. prefix e s) space_runes = None"
    by (simp add: find_None_iff)
  then show ?thesis by (simp add: leading_space_def)
qed

lemma TrimLeft_space_id: "s \<noteq> [] \<Longrightarrow> \<not> space_lead (hd s) \<Longrightarrow> TrimLeft_space s = s"
  by (subst TrimLeft_space.simps) (simp add: leading_space_0)

lemma find_SomeD: "find P xs = Some x \<Longrightarrow> x \<in> set xs \<and> P x"
  by (induction xs) (auto split: if_splits)

lemma trailing_space_suffix:
  assumes "trailing_space s \<noteq> 0"
  shows "\<exists>e \<in> set space_runes. suffix e s \<and> trailing_space s = length e"
proof (cases "find (\<lambda>e. suffix e s) space_runes")
  case None
  then show ?thesis using assms by (simp add: trailing_space_def)
next
  case (Some e)
  from find_SomeD [OF Some] Some show ?thesis by (auto simp: trailing_space_def)
qed

lemma TrimRight_space_hd:
  "s \<noteq> [] \<Longrightarrow> \<not> space_lead (hd s) \<Longrightarrow>
     TrimRight_space s \<noteq> [] \<and> hd (TrimRight_space s) = hd s"
proof (induction s rule: TrimRight_space.induct)
  case (1 s)
  show ?case
  proof (cases "trailing_space s = 0")
    case True
    then show ?thesis using "1.prems" by (subst (1 2) TrimRight_space.simps) simp
  next
    case False
    then obtain e where e: "e \<in> set space_runes" "suffix e s" "trailing_space s = length e"
      using trailing_space_suffix by blast
    then obtain p where p: "s = p @ e" by (auto simp: suffix_def)
    have ene: "e \<noteq> []" using space_runes_length [OF e(1)] by auto
    have "p \<noteq> []"
    proof
      assume "p = []"
      then have "hd s = hd e" using p by simp
      moreover have "hd e \<in> hd ` set space_runes" using e(1) by (rule imageI)
      ultimately show False using "1.prems"(2) by (simp add: space_lead_def)
    qed
    then have t: "take (length s - trailing_space s) s = p" "hd p = hd s"
      using p e(3) by auto
    have "TrimRight_space p \<noteq> [] \<and> hd (TrimRight_space p) = hd p"
      using "1.IH" [OF False] t \<open>p \<noteq> []\<close> "1.prems"(2) by simp
    moreover have "TrimRight_space s = TrimRight_space p"
      using False t by (subst TrimRight_space.simps) simp
    ultimately show ?thesis using t by simp
  qed
qed

lemma hexColon_not_space_lead: "hexColon c \<Longrightarrow> \<not> space_lead c"
  by (auto simp: hexColon_def space_lead_def space_runes_def)

lemma match_BSSID_TrimSpace:
  assumes "match_BSSID block = Some m"
  shows "TrimSpace block \<noteq> []"
proof -
  from assms have len: "17 \<le> length block" and all: "list_all hexColon (take 17 block)"
    by (auto simp: match_BSSID_def split: if_splits)
  from len have ne: "block \<noteq> []" by auto
  then have "hd block = hd (take 17 block)" by (cases block) auto
  moreover have "hd (take 17 block) \<in> set (take 17 block)" using ne by (cases block) auto
  ultimately have "hexColon (hd block)" using all by (simp add: list_all_iff)
  then have nl: "\<not> space_lead (hd block)" by (rule hexColon_not_space_lead)
  show ?thesis
    using TrimRight_space_hd [OF ne nl] by (simp add: TrimSpace_def TrimLeft_space_id [OF ne nl])
qed

lemma upper_byte_table:
  "list_all (\<lambda>c. upper_byte c \<in> set ''0123456789ABCDEF:'') ''0123456789abcdefABCDEF:''"
  by code_simp

lemma upper_byte_hexColon: "hexColon c \<Longrightarrow> upper_byte c \<in> set ''0123456789ABCDEF:''"
  using upper_byte_table unfolding hexColon_def list_all_iff by blast

lemma takeWhile_Nil_iff: "takeWhile P xs = [] \<longleftrightarrow> (case xs of [] \<Rightarrow> True | x # _ \<Rightarrow> \<not> P x)"
  by (cases xs) auto

lemma Atoi_digits:
  assumes "ds \<noteq> []" and "list_all digit ds" and "decimal ds < 2 ^ 63"
  shows "Atoi ds = (decimal ds, None)"
proof -
  obtain c cs where ds: "ds = c # cs" using assms(1) by (cases ds) auto
  then have "digit c" using assms(2) by simp
  then have "c \<noteq> CHR ''+''" "c \<noteq> CHR ''-''" by (auto simp: digit_def)
  then show ?thesis using assms ds by (simp add: Atoi_def Let_def)
qed

section \<open>Properties of the split into blocks\<close>

lemma Split_BSS_marker:
  "bol \<Longrightarrow> prefix ''BSS '' (c # cs) \<Longrightarrow> Split_BSS bol (c # cs) = [] # Split_BSS False (drop 3 cs)"
  by (simp only: Split_BSS.simps simp_thms if_True)

lemma Split_BSS_other:
  "\<not> (bol \<and> prefix ''BSS '' (c # cs)) \<Longrightarrow>
     Split_BSS bol (c # cs) =
       (case Split_BSS (c = newline) cs of [] \<Rightarrow> [[c]] | b # bs \<Rightarrow> (c # b) # bs)"
  by (simp only: Split_BSS.simps if_False)

lemma Split_BSS_ne: "Split_BSS bol s \<noteq> []"
proof (induction bol s rule: Split_BSS.induct)
  case (1 bol)
  then show ?case by (simp only: Split_BSS.simps) simp
next
  case (2 bol c cs)
  show ?case
  proof (cases "bol \<and> prefix ''BSS '' (c # cs)")
    case True
    then have "Split_BSS bol (c # cs) = [] # Split_BSS False (drop 3 cs)"
      by (simp only: Split_BSS_marker)
    then show ?thesis by simp
  next
    case False
    then show ?thesis
      by (cases "Split_BSS (c = newline) cs") (simp_all only: Split_BSS_other list.case list.distinct not_False_eq_True)
  qed
qed

lemma Split_BSS_step:
  assumes "\<not> (bol \<and> prefix ''BSS '' (c # cs))"
  shows "Split_BSS bol (c # cs) =
       (c # hd (Split_BSS (c = newline) cs)) # tl (Split_BSS (c = newline) cs)"
proof (cases "Split_BSS (c = newline) cs")
  case Nil
  then show ?thesis using Split_BSS_ne by blast
next
  case (Cons b bs)
  then show ?thesis by (simp only: Split_BSS_other [OF assms] list.case list.sel)
qed

lemma prefix_BSS_drop: "prefix ''BSS '' (c # cs) \<Longrightarrow> c # cs = ''BSS '' @ drop 3 cs"
proof -
  assume "prefix ''BSS '' (c # cs)"
  then obtain r where r: "c # cs = ''BSS '' @ r" by (auto simp only: prefix_def)
  then have "cs = ''SS '' @ r" by simp
  then have "drop 3 cs = r" by simp
  with r show ?thesis by simp
qed

lemma Split_BSS_Cons_other:
  assumes "\<not> (bol \<and> prefix ''BSS '' (c # cs))" and "Split_BSS (c = newline) cs = f # t"
  shows "Split_BSS bol (c # cs) = (c # f) # t"
  by (simp only: Split_BSS_other [OF assms(1)] assms(2) list.case)

lemma Split_BSS_first:
  "Split_BSS bol s = [s] \<or>
   (\<exists>rest. s = hd (Split_BSS bol s) @ ''BSS '' @ rest \<and>
      tl (Split_BSS bol s) = Split_BSS False rest \<and>
      (if hd (Split_BSS bol s) = [] then bol else last (hd (Split_BSS bol s)) = newline))"
proof (induction bol s rule: Split_BSS.induct)
  case (1 bol)
  then show ?case by simp
next
  case (2 bol c cs)
  show ?case
  proof (cases "bol \<and> prefix ''BSS '' (c # cs)")
    case True
    then have eq: "Split_BSS bol (c # cs) = [] # Split_BSS False (drop 3 cs)"
      by (simp only: Split_BSS_marker)
    from True have "prefix ''BSS '' (c # cs)" by blast
    then have whole: "c # cs = ''BSS '' @ drop 3 cs" by (rule prefix_BSS_drop)
    have h: "hd (Split_BSS bol (c # cs)) = []"
      "tl (Split_BSS bol (c # cs)) = Split_BSS False (drop 3 cs)"
      unfolding eq by simp_all
    have "c # cs = hd (Split_BSS bol (c # cs)) @ ''BSS '' @ drop 3 cs"
      unfolding h(1) append_Nil by (rule whole)
    moreover have "if hd (Split_BSS bol (c # cs)) = [] then bol
       else last (hd (Split_BSS bol (c # cs))) = newline"
      unfolding h(1) using True by simp
    ultimately show ?thesis using h(2) by blast
  next
    case False
    obtain f t where r: "Split_BSS (c = newline) cs = f # t"
      using Split_BSS_ne [of "c = newline" cs] by (cases "Split_BSS (c = newline) cs") blast+
    have step: "Split_BSS bol (c # cs) = (c # f) # t"
      using False r by (rule Split_BSS_Cons_other)
    from "2.IH"(2) [OF False] consider
      (one) "f # t = [cs]"
      | (more) rest where "cs = f @ ''BSS '' @ rest" "t = Split_BSS False rest"
          "if f = [] then c = newline else last f = newline"
      unfolding r list.sel by blast
    then show ?thesis
    proof cases
      case one
      then have "f = cs" "t = []" by simp_all
      then show ?thesis unfolding step by simp
    next
      case more
      have "c # cs = (c # f) @ ''BSS '' @ rest" unfolding more(1) by simp
      moreover have "last (c # f) = newline" using more(3) by (cases "f = []") simp_all
      ultimately have "c # cs = hd (Split_BSS bol (c # cs)) @ ''BSS '' @ rest \<and>
        tl (Split_BSS bol (c # cs)) = Split_BSS False rest \<and>
        (if hd (Split_BSS bol (c # cs)) = [] then bol
         else last (hd (Split_BSS bol (c # cs))) = newline)"
        unfolding step list.sel using more(2) by simp
      then show ?thesis by blast
    qed
  qed
qed

lemma Split_BSS_hd_prefix: "prefix (hd (Split_BSS bol s)) s"
proof -
  from Split_BSS_first [of bol s] consider "Split_BSS bol s = [s]"
    | rest where "s = hd (Split_BSS bol s) @ ''BSS '' @ rest" by blast
  then show ?thesis
  proof cases
    case 1
    then show ?thesis by simp
  next
    case 2
    then show ?thesis by (rule prefixI)
  qed
qed

lemma Split_BSS_hd_whole: "Split_BSS bol (hd (Split_BSS bol s)) = [hd (Split_BSS bol s)]"
proof (induction bol s rule: Split_BSS.induct)
  case (1 bol)
  then show ?case by simp
next
  case (2 bol c cs)
  show ?case
  proof (cases "bol \<and> prefix ''BSS '' (c # cs)")
    case True
    then have "Split_BSS bol (c # cs) = [] # Split_BSS False (drop 3 cs)"
      by (simp only: Split_BSS_marker)
    then show ?thesis by simp
  next
    case False
    obtain f t where r: "Split_BSS (c = newline) cs = f # t"
      using Split_BSS_ne [of "c = newline" cs] by (cases "Split_BSS (c = newline) cs") blast+
    have step: "Split_BSS bol (c # cs) = (c # f) # t"
      using False r by (rule Split_BSS_Cons_other)
    have "prefix f cs" using Split_BSS_hd_prefix [of "c = newline" cs] unfolding r by simp
    then have "prefix (c # f) (c # cs)" by simp
    then have no: "\<not> (bol \<and> prefix ''BSS '' (c # f))"
      using False prefix_order.trans by blast
    have ih: "Split_BSS (c = newline) f = [f]"
      using "2.IH"(2) [OF False] unfolding r by simp
    have "Split_BSS bol (c # f) = [c # f]"
      using no ih by (rule Split_BSS_Cons_other)
    then show ?thesis unfolding step by simp
  qed
qed

section \<open>Properties of the leftmost match\<close>

lemma find_leftmost_None:
  "find_leftmost m s = None \<longleftrightarrow> (\<forall>i \<le> length s. m (drop i s) = None)"
proof (induction s)
  case Nil
  then show ?case by simp
next
  case (Cons c cs)
  have "(\<forall>i \<le> length (c # cs). m (drop i (c # cs)) = None) \<longleftrightarrow>
        m (c # cs) = None \<and> (\<forall>i \<le> length cs. m (drop i cs) = None)"
  proof (intro iffI conjI allI impI)
    assume a: "\<forall>i \<le> length (c # cs). m (drop i (c # cs)) = None"
    from a have "m (drop 0 (c # cs)) = None" by blast
    then show "m (c # cs) = None" by simp
    fix i assume "i \<le> length cs"
    then have "Suc i \<le> length (c # cs)" by simp
    with a have "m (drop (Suc i) (c # cs)) = None" by blast
    then show "m (drop i cs) = None" by simp
  next
    fix i
    assume a: "m (c # cs) = None \<and> (\<forall>i \<le> length cs. m (drop i cs) = None)"
      and i: "i \<le> length (c # cs)"
    show "m (drop i (c # cs)) = None"
    proof (cases i)
      case 0
      then show ?thesis using a by simp
    next
      case (Suc k)
      then show ?thesis using a i by simp
    qed
  qed
  then show ?case using Cons.IH by (simp split: option.splits)
qed

lemma find_leftmost_Some:
  "find_leftmost m s = Some g \<longleftrightarrow>
     (\<exists>i \<le> length s. m (drop i s) = Some g \<and> (\<forall>j < i. m (drop j s) = None))"
proof (induction s)
  case Nil
  then show ?case by simp
next
  case (Cons c cs)
  show ?case
  proof (cases "m (c # cs)")
    case (Some g')
    have "(\<exists>i \<le> length (c # cs). m (drop i (c # cs)) = Some g \<and>
            (\<forall>j < i. m (drop j (c # cs)) = None)) \<longleftrightarrow> g' = g"
    proof
      assume "\<exists>i \<le> length (c # cs). m (drop i (c # cs)) = Some g \<and>
            (\<forall>j < i. m (drop j (c # cs)) = None)"
      then obtain i where i: "m (drop i (c # cs)) = Some g" "\<forall>j < i. m (drop j (c # cs)) = None"
        by blast
      have "i = 0"
      proof (rule ccontr)
        assume "i \<noteq> 0"
        then have "m (drop 0 (c # cs)) = None" using i(2) by blast
        then show False using Some by simp
      qed
      then show "g' = g" using i(1) Some by simp
    next
      assume "g' = g"
      then have "m (drop 0 (c # cs)) = Some g \<and> (\<forall>j < 0. m (drop j (c # cs)) = None)"
        using Some by simp
      then show "\<exists>i \<le> length (c # cs). m (drop i (c # cs)) = Some g \<and>
            (\<forall>j < i. m (drop j (c # cs)) = None)" by blast
    qed
    then show ?thesis using Some by simp
  next
    case None
    have "(\<exists>i \<le> length (c # cs). m (drop i (c # cs)) = Some g \<and>
            (\<forall>j < i. m (drop j (c # cs)) = None)) \<longleftrightarrow>
          (\<exists>i \<le> length cs. m (drop i cs) = Some g \<and> (\<forall>j < i. m (drop j cs) = None))"
    proof
      assume "\<exists>i \<le> length (c # cs). m (drop i (c # cs)) = Some g \<and>
            (\<forall>j < i. m (drop j (c # cs)) = None)"
      then obtain i where i: "i \<le> length (c # cs)" "m (drop i (c # cs)) = Some g"
        "\<forall>j < i. m (drop j (c # cs)) = None" by blast
      then obtain k where k: "i = Suc k" using None by (cases i) auto
      have "\<forall>j < k. m (drop j cs) = None"
      proof (intro allI impI)
        fix j assume "j < k"
        then have "m (drop (Suc j) (c # cs)) = None" using i(3) k by blast
        then show "m (drop j cs) = None" by simp
      qed
      then show "\<exists>i \<le> length cs. m (drop i cs) = Some g \<and> (\<forall>j < i. m (drop j cs) = None)"
        using i(1,2) k by auto
    next
      assume "\<exists>i \<le> length cs. m (drop i cs) = Some g \<and> (\<forall>j < i. m (drop j cs) = None)"
      then obtain i where i: "i \<le> length cs" "m (drop i cs) = Some g"
        "\<forall>j < i. m (drop j cs) = None" by blast
      have "\<forall>j < Suc i. m (drop j (c # cs)) = None"
      proof (intro allI impI)
        fix j assume j: "j < Suc i"
        show "m (drop j (c # cs)) = None"
        proof (cases j)
          case 0
          then show ?thesis using None by simp
        next
          case (Suc l)
          then show ?thesis using i(3) j by simp
        qed
      qed
      moreover have "Suc i \<le> length (c # cs)" "m (drop (Suc i) (c # cs)) = Some g"
        using i by simp_all
      ultimately show "\<exists>i \<le> length (c # cs). m (drop i (c # cs)) = Some g \<and>
            (\<forall>j < i. m (drop j (c # cs)) = None)" by blast
    qed
    then show ?thesis using None Cons.IH by simp
  qed
qed

lemma match_channel_at_drop:
  "match_channel_at (drop i block) =
     (if channel_marker_at block i then Some (channel_digits_at block i) else None)"
proof -
  have d: "drop (length channel_marker) (drop i block) = drop (i + length channel_marker) block"
    by (simp add: add.commute)
  show ?thesis
    unfolding match_channel_at_def channel_marker_at_def channel_digits_at_def Let_def d
      takeWhile_Nil_iff
    by (cases "drop (i + length channel_marker) block") auto
qed

lemma find_channel_Some:
  assumes "channel_marker_at block i" and "\<forall>j < i. \<not> channel_marker_at block j"
  shows "find_leftmost match_channel_at block = Some (channel_digits_at block i)"
proof -
  have "i \<le> length block"
  proof (rule ccontr)
    assume "\<not> i \<le> length block"
    then have "drop i block = []" by simp
    then show False using assms(1) by (simp add: channel_marker_at_def channel_marker_def)
  qed
  moreover have "match_channel_at (drop i block) = Some (channel_digits_at block i)"
    using assms(1) by (simp add: match_channel_at_drop)
  moreover have "\<forall>j < i. match_channel_at (drop j block) = None"
    using assms(2) by (simp add: match_channel_at_drop)
  ultimately show ?thesis unfolding find_leftmost_Some by blast
qed

lemma find_channel_None:
  assumes "\<forall>i. \<not> channel_marker_at block i"
  shows "find_leftmost match_channel_at block = None"
  unfolding find_leftmost_None using assms by (simp add: match_channel_at_drop)

lemma channel_digits:
  assumes "channel_marker_at block i"
  shows "channel_digits_at block i \<noteq> []" and "list_all digit (channel_digits_at block i)"
proof -
  show "channel_digits_at block i \<noteq> []"
    using assms unfolding channel_marker_at_def channel_digits_at_def takeWhile_Nil_iff
    by (cases "drop (i + length channel_marker) block") auto
  show "list_all digit (channel_digits_at block i)"
    unfolding channel_digits_at_def list_all_iff using set_takeWhileD by fastforce
qed

section \<open>Properties of the parser\<close>

lemma parseBlock_None_iff: "parseBlock now block = None \<longleftrightarrow> match_BSSID block = None"
proof (cases "match_BSSID block")
  case None
  then show ?thesis by (simp add: parseBlock_def)
next
  case (Some m)
  then show ?thesis using match_BSSID_TrimSpace [OF Some]
    by (simp add: parseBlock_def Let_def)
qed

lemma parseBlock_Some:
  assumes "parseBlock now block = Some n"
  shows "match_BSSID block = Some (take 17 block)"
    and "BSSID n = ToUpper (take 17 block)"
    and "Security n = parseSecurity block"
    and "Frequency n = (case find_leftmost match_freq_at block of
                          Some m \<Rightarrow> fst (Atoi m) | None \<Rightarrow> 0)"
    and "Channel n = (case find_leftmost match_channel_at block of
                        Some m \<Rightarrow> fst (Atoi m) | None \<Rightarrow> freqToChannel (Frequency n))"
    and "Signal n = (case find_leftmost match_signal_at block of
                       Some m \<Rightarrow> fst (Atoi m) | None \<Rightarrow> 0)"
    and "LastSeen n = now"
  using assms
  by (auto simp: parseBlock_def Let_def match_BSSID_def split: if_splits option.splits)

lemma set_parse_blocks:
  "set (parse_blocks clock i blocks) =
     {n. \<exists>j < length blocks. parseBlock (clock (i + j)) (blocks ! j) = Some n}"
proof (induction blocks arbitrary: i)
  case Nil
  then show ?case by simp
next
  case (Cons b bs)
  have *: "{n. \<exists>j < length (b # bs). parseBlock (clock (i + j)) ((b # bs) ! j) = Some n} =
      {n. parseBlock (clock i) b = Some n} \<union>
      {n. \<exists>j < length bs. parseBlock (clock (Suc i + j)) (bs ! j) = Some n}"
    (is "?L = ?A \<union> ?B")
  proof (intro set_eqI iffI)
    fix n assume "n \<in> ?L"
    then obtain j where j: "j < length (b # bs)" "parseBlock (clock (i + j)) ((b # bs) ! j) = Some n"
      by blast
    show "n \<in> ?A \<union> ?B"
    proof (cases j)
      case 0
      then show ?thesis using j by simp
    next
      case (Suc k)
      then show ?thesis using j by auto
    qed
  next
    fix n assume "n \<in> ?A \<union> ?B"
    then show "n \<in> ?L"
    proof
      assume "n \<in> ?A"
      then have "parseBlock (clock (i + 0)) ((b # bs) ! 0) = Some n" by simp
      then show ?thesis by blast
    next
      assume "n \<in> ?B"
      then obtain j where "j < length bs" "parseBlock (clock (Suc i + j)) (bs ! j) = Some n"
        by blast
      then have "Suc j < length (b # bs)" "parseBlock (clock (i + Suc j)) ((b # bs) ! Suc j) = Some n"
        by simp_all
      then show ?thesis by blast
    qed
  qed
  show ?case unfolding * using Cons.IH [of "Suc i"]
    by (cases "parseBlock (clock i) b") auto
qed

lemma parse_blocks_hd:
  "parse_blocks clock i (b # bs) =
     (case parseBlock (clock i) b of None \<Rightarrow> [] | Some n \<Rightarrow> [n]) @ parse_blocks clock (Suc i) bs"
  by (simp split: option.splits)

lemma parseBlock_address:
  assumes "parseBlock now block = Some n"
  shows "length (BSSID n) = 17 \<and> list_all (\<lambda>c. c \<in> set ''0123456789ABCDEF:'') (BSSID n)"
proof -
  from parseBlock_Some(1) [OF assms]
  have len: "17 \<le> length block" and all: "list_all hexColon (take 17 block)"
    by (auto simp: match_BSSID_def split: if_splits)
  have b: "BSSID n = map upper_byte (take 17 block)"
    using parseBlock_Some(2) [OF assms] by (simp add: ToUpper_def)
  have "list_all (\<lambda>c. c \<in> set ''0123456789ABCDEF:'') (map upper_byte (take 17 block))"
    using all upper_byte_hexColon unfolding list_all_iff by auto
  then show ?thesis using len unfolding b by simp
qed

lemma Atoi_digits_big:
  assumes "ds \<noteq> []" and "list_all digit ds" and "2 ^ 63 \<le> decimal ds"
  shows "Atoi ds = (2 ^ 63 - 1, Some ErrRange)"
proof -
  obtain c cs where ds: "ds = c # cs" using assms(1) by (cases ds) auto
  then have "digit c" using assms(2) by simp
  then have "c \<noteq> CHR ''+''" "c \<noteq> CHR ''-''" by (auto simp: digit_def)
  then show ?thesis using assms ds by (simp add: Atoi_def Let_def)
qed

lemma freqToChannel_table:
  "freqToChannel freq =
     (if 2412 \<le> freq \<and> freq \<le> 2472 then (freq - 2407) div 5
      else if freq = 2484 then 14
      else if 5180 \<le> freq \<and> freq \<le> 5825 then (freq - 5000) div 5
      else if 5955 \<le> freq \<and> freq \<le> 7115 then (freq - 5950) div 5
      else 0)"
  by (simp add: freqToChannel_def go_div_nonneg)

lemma parseScanOutput_set:
  assumes "sort_Slice_contract sort_Slice"
  shows "set (parseScanOutput sort_Slice clock output) =
           set (parse_blocks clock 0 (Split_BSS True output))"
proof -
  let ?xs = "parse_blocks clock 0 (Split_BSS True output)"
  from assms Signal_order
  have "mset (sort_Slice (\<lambda>a b. Signal a > Signal b) ?xs) = mset ?xs"
    unfolding sort_Slice_contract_def by blast
  then have "set (sort_Slice (\<lambda>a b. Signal a > Signal b) ?xs) = set ?xs"
    by (rule mset_eq_setD)
  then show ?thesis by (simp add: parseScanOutput_def)
qed

lemma parseScanOutput_mset:
  assumes "sort_Slice_contract sort_Slice"
  shows "mset (parseScanOutput sort_Slice clock output) =
           mset (parse_blocks clock 0 (Split_BSS True output))"
proof -
  let ?xs = "parse_blocks clock 0 (Split_BSS True output)"
  from assms Signal_order
  have "mset (sort_Slice (\<lambda>a b. Signal a > Signal b) ?xs) = mset ?xs"
    unfolding sort_Slice_contract_def by blast
  then show ?thesis by (simp add: parseScanOutput_def)
qed

subsection \<open>The claims about the parser\<close>

text \<open>
  Claim C3. The security label of a block is decided by the markers it contains, the
  first of these that applies: \<open>SAE\<close> gives WPA3 whatever else is there; else \<open>RSN:\<close> and
  \<open>WPA:\<close> together give WPA2/WPA; else \<open>RSN:\<close> gives WPA2; else \<open>WPA:\<close> gives WPA; else
  \<open>Privacy\<close> gives WEP; else the label is OPEN. It is the label of the network parsed
  from the block.
\<close>

theorem security_precedence:
  "parseSecurity block =
     (if sublist ''SAE'' block then ''WPA3''
      else if sublist ''RSN:'' block \<and> sublist ''WPA:'' block then ''WPA2/WPA''
      else if sublist ''RSN:'' block then ''WPA2''
      else if sublist ''WPA:'' block then ''WPA''
      else if sublist ''Privacy'' block then ''WEP''
      else ''OPEN'') \<and>
   (\<forall>now n. parseBlock now block = Some n \<longrightarrow> Security n = parseSecurity block)"
  by (simp add: parseSecurity_def Contains_def parseBlock_Some(3))

theorem security_precedence_witness:
  "sublist ''RSN:'' sample_block \<and> sublist ''WPA:'' sample_block \<and>
   Security (the (parseBlock 0 sample_block)) = ''WPA2/WPA'' \<and>
   parseSecurity ''RSN: WPA: Privacy SAE'' = ''WPA3''"
proof -
  have 1: "sublist ''RSN:'' sample_block" "sublist ''WPA:'' sample_block"
    "\<not> sublist ''SAE'' sample_block"
    by code_simp+
  have 2: "parseBlock 0 sample_block \<noteq> None" by code_simp
  have 3: "sublist ''SAE'' ''RSN: WPA: Privacy SAE''" by code_simp
  from security_precedence [of sample_block] security_precedence [of "''RSN: WPA: Privacy SAE''"]
    1 2 3 show ?thesis by auto
qed

text \<open>
  Claim C4, as the code has it. The channel of a network parsed from a block is the
  number of the leftmost channel marker of the block as \<open>strconv.Atoi\<close> reads it: its
  decimal value when that fits a 64-bit \<open>int\<close>, and the largest \<open>int\<close> otherwise (the
  range error is dropped). When the block has no channel marker the channel is computed
  from the frequency: 2412 to 2472 gives \<open>(freq - 2407) / 5\<close>, 2484 gives 14, 5180 to
  5825 gives \<open>(freq - 5000) / 5\<close>, 5955 to 7115 gives \<open>(freq - 5950) / 5\<close>, anything
  else 0.
\<close>

theorem channel_number:
  assumes "parseBlock now block = Some n"
  shows "(\<forall>i. channel_marker_at block i \<and> (\<forall>j < i. \<not> channel_marker_at block j) \<longrightarrow>
            Channel n = fst (Atoi (channel_digits_at block i)) \<and>
            (decimal (channel_digits_at block i) < 2 ^ 63 \<longrightarrow>
               Channel n = decimal (channel_digits_at block i)) \<and>
            (2 ^ 63 \<le> decimal (channel_digits_at block i) \<longrightarrow> Channel n = 2 ^ 63 - 1)) \<and>
         ((\<forall>i. \<not> channel_marker_at block i) \<longrightarrow>
            Channel n =
              (if 2412 \<le> Frequency n \<and> Frequency n \<le> 2472 then (Frequency n - 2407) div 5
               else if Frequency n = 2484 then 14
               else if 5180 \<le> Frequency n \<and> Frequency n \<le> 5825 then (Frequency n - 5000) div 5
               else if 5955 \<le> Frequency n \<and> Frequency n \<le> 7115 then (Frequency n - 5950) div 5
               else 0)) \<and>
         freqToChannel 2437 = 6 \<and> freqToChannel 2484 = 14 \<and> freqToChannel 5500 = 100 \<and>
         freqToChannel 5180 = 36 \<and> freqToChannel 9999 = 0"
proof -
  have 1: "Channel n = fst (Atoi (channel_digits_at block i)) \<and>
            (decimal (channel_digits_at block i) < 2 ^ 63 \<longrightarrow>
               Channel n = decimal (channel_digits_at block i)) \<and>
            (2 ^ 63 \<le> decimal (channel_digits_at block i) \<longrightarrow> Channel n = 2 ^ 63 - 1)"
    if a: "channel_marker_at block i \<and> (\<forall>j < i. \<not> channel_marker_at block j)" for i
  proof -
    let ?ds = "channel_digits_at block i"
    from a have "find_leftmost match_channel_at block = Some ?ds"
      by (simp add: find_channel_Some)
    then have c: "Channel n = fst (Atoi ?ds)"
      using parseBlock_Some(5) [OF assms] by simp
    have d: "?ds \<noteq> []" "list_all digit ?ds"
      using a channel_digits [of block i] by simp_all
    have small: "Channel n = decimal ?ds" if "decimal ?ds < 2 ^ 63"
      using Atoi_digits [OF d that] c by simp
    have big: "Channel n = 2 ^ 63 - 1" if "2 ^ 63 \<le> decimal ?ds"
      using Atoi_digits_big [OF d that] c by simp
    from c small big show ?thesis by blast
  qed
  have 2: "Channel n =
              (if 2412 \<le> Frequency n \<and> Frequency n \<le> 2472 then (Frequency n - 2407) div 5
               else if Frequency n = 2484 then 14
               else if 5180 \<le> Frequency n \<and> Frequency n \<le> 5825 then (Frequency n - 5000) div 5
               else if 5955 \<le> Frequency n \<and> Frequency n \<le> 7115 then (Frequency n - 5950) div 5
               else 0)"
    if "\<forall>i. \<not> channel_marker_at block i"
  proof -
    from that have "find_leftmost match_channel_at block = None" by (rule find_channel_None)
    then have "Channel n = freqToChannel (Frequency n)"
      using parseBlock_Some(5) [OF assms] by simp
    then show ?thesis by (simp only: freqToChannel_table)
  qed
  have 3: "freqToChannel 2437 = 6 \<and> freqToChannel 2484 = 14 \<and> freqToChannel 5500 = 100 \<and>
         freqToChannel 5180 = 36 \<and> freqToChannel 9999 = 0"
    by (simp add: freqToChannel_table)
  from 1 2 3 show ?thesis by blast
qed

theorem channel_number_witness:
  "Frequency (the (parseBlock 0 channel_block)) = 5180 \<and>
   channel_digits_at channel_block 29 = ''6'' \<and>
   Channel (the (parseBlock 0 channel_block)) = 6 \<and>
   Frequency (the (parseBlock 0 ''aa:bb:cc:dd:ee:ff freq: 5180'')) = 5180 \<and>
   Channel (the (parseBlock 0 ''aa:bb:cc:dd:ee:ff freq: 5180'')) = 36"
proof -
  define n where "n = the (parseBlock 0 channel_block)"
  have p: "parseBlock 0 channel_block = Some n" unfolding n_def by code_simp
  have f: "Frequency n = 5180" unfolding n_def by code_simp
  have m: "channel_marker_at channel_block 29" by code_simp
  have "list_all (\<lambda>j. \<not> channel_marker_at channel_block j) [0..<29]" by code_simp
  then have first: "\<forall>j < 29. \<not> channel_marker_at channel_block j"
    by (simp add: list_all_iff)
  have d: "channel_digits_at channel_block 29 = ''6''" by code_simp
  have dec: "decimal ''6'' = 6" by code_simp
  from channel_number [OF p] m first
  have "decimal (channel_digits_at channel_block 29) < 2 ^ 63 \<longrightarrow>
          Channel n = decimal (channel_digits_at channel_block 29)"
    by blast
  then have c: "Channel n = 6" unfolding d dec by simp
  define n' where "n' = the (parseBlock 0 ''aa:bb:cc:dd:ee:ff freq: 5180'')"
  have p': "parseBlock 0 ''aa:bb:cc:dd:ee:ff freq: 5180'' = Some n'"
    unfolding n'_def by code_simp
  have f': "Frequency n' = 5180" unfolding n'_def by code_simp
  have "list_all (\<lambda>j. \<not> channel_marker_at ''aa:bb:cc:dd:ee:ff freq: 5180'' j) [0..<3]"
    by code_simp
  then have early: "\<forall>j < 3. \<not> channel_marker_at ''aa:bb:cc:dd:ee:ff freq: 5180'' j"
    by (simp add: list_all_iff)
  have late: "\<not> channel_marker_at ''aa:bb:cc:dd:ee:ff freq: 5180'' i" if "3 \<le> i" for i
  proof
    assume "channel_marker_at ''aa:bb:cc:dd:ee:ff freq: 5180'' i"
    then have "prefix channel_marker (drop i ''aa:bb:cc:dd:ee:ff freq: 5180'')"
      by (simp only: channel_marker_at_def)
    then have "length channel_marker \<le> length (drop i ''aa:bb:cc:dd:ee:ff freq: 5180'')"
      by (rule prefix_length_le)
    then show False using that by (simp add: channel_marker_def)
  qed
  have none: "\<forall>i. \<not> channel_marker_at ''aa:bb:cc:dd:ee:ff freq: 5180'' i"
  proof
    fix i
    show "\<not> channel_marker_at ''aa:bb:cc:dd:ee:ff freq: 5180'' i"
      using early late [of i] by (cases "i < 3") auto
  qed
  from channel_number [OF p'] none have "Channel n' = 36" unfolding f' by simp
  then show ?thesis using f d c f' unfolding n_def n'_def by simp
qed

text \<open>
  The channel is not always the number of the marker: a number beyond the range of a
  64-bit \<open>int\<close> is read as the largest \<open>int\<close>.
\<close>

theorem channel_number_counterexample:
  "channel_marker_at huge_channel_block 18 \<and>
   decimal (channel_digits_at huge_channel_block 18) = 9223372036854775808 \<and>
   Channel (the (parseBlock 0 huge_channel_block)) = 9223372036854775807"
  by code_simp

text \<open>
  Claim C5, as the code has it. Every network returned has an address of 17 characters,
  each an upper-case hexadecimal digit or a colon: the first 17 characters of its block
  in upper case. The networks returned are those of the blocks that yield one, and a
  block yields none exactly when its first 17 characters are not all of the class
  \<open>[0-9a-fA-F:]\<close>.
\<close>

theorem address_form:
  assumes "sort_Slice_contract sort_Slice"
  shows "(\<forall>n \<in> set (parseScanOutput sort_Slice clock output).
            length (BSSID n) = 17 \<and> list_all (\<lambda>c. c \<in> set ''0123456789ABCDEF:'') (BSSID n)) \<and>
         set (parseScanOutput sort_Slice clock output) =
           {n. \<exists>j < length (Split_BSS True output).
                 parseBlock (clock j) (Split_BSS True output ! j) = Some n} \<and>
         (\<forall>now block. (parseBlock now block = None) =
            (\<not> (17 \<le> length block \<and> list_all hexColon (take 17 block)))) \<and>
         (\<forall>now block n. parseBlock now block = Some n \<longrightarrow> BSSID n = ToUpper (take 17 block))"
proof (intro conjI ballI allI impI)
  show s: "set (parseScanOutput sort_Slice clock output) =
           {n. \<exists>j < length (Split_BSS True output).
                 parseBlock (clock j) (Split_BSS True output ! j) = Some n}"
    unfolding parseScanOutput_set [OF assms] set_parse_blocks by simp
  fix n assume "n \<in> set (parseScanOutput sort_Slice clock output)"
  then obtain j where "parseBlock (clock j) (Split_BSS True output ! j) = Some n"
    unfolding s by blast
  then have *: "length (BSSID n) = 17 \<and> list_all (\<lambda>c. c \<in> set ''0123456789ABCDEF:'') (BSSID n)"
    by (rule parseBlock_address)
  from * show "length (BSSID n) = 17" by blast
  from * show "list_all (\<lambda>c. c \<in> set ''0123456789ABCDEF:'') (BSSID n)" by blast
next
  fix now block
  show "(parseBlock now block = None) =
            (\<not> (17 \<le> length block \<and> list_all hexColon (take 17 block)))"
    unfolding parseBlock_None_iff by (simp add: match_BSSID_def)
next
  fix now block n
  assume "parseBlock now block = Some n"
  then show "BSSID n = ToUpper (take 17 block)" by (rule parseBlock_Some(2))
qed

theorem address_form_witness:
  "map BSSID (parseScanOutput insertion_sort int sample_blob) =
     [''11:22:33:44:55:66'', ''AA:BB:CC:DD:EE:FF''] \<and>
   list_all (\<lambda>n. length (BSSID n) = 17)
     (parseScanOutput insertion_sort int sample_blob) \<and>
   parseBlock 0 ''Load: station count'' = None"
proof -
  have e: "map BSSID (parseScanOutput insertion_sort int sample_blob) =
     [''11:22:33:44:55:66'', ''AA:BB:CC:DD:EE:FF'']"
    by code_simp
  have l: "\<not> list_all hexColon (take 17 ''Load: station count'')" by code_simp
  from address_form [OF insertion_sort_contract, of int sample_blob] e l
  show ?thesis by (simp add: list_all_iff)
qed

text \<open>
  The pattern of the code is not the strict pattern of six colon-separated pairs: a
  block that starts with 17 hexadecimal digits yields a network whose address is not in
  canonical form.
\<close>

theorem address_form_counterexample:
  "map BSSID (parseScanOutput insertion_sort int loose_blob) = [''AABBCCDDEEFF00112''] \<and>
   \<not> canonical_address ''AABBCCDDEEFF00112''"
  by code_simp

text \<open>
  Claim C9, as the code has it. The first piece of the split is the text before the
  first line that starts with \<open>BSS \<close>: a prefix of the text in which no line starts
  with \<open>BSS \<close> (splitting it gives it back), followed by the marker, or the whole text
  when there is no marker. It is parsed like every other block: the networks returned
  are the one it yields, if any, and those of the later blocks, and it yields none
  exactly when its first 17 characters are not all of the class \<open>[0-9a-fA-F:]\<close>.
\<close>

theorem first_fragment:
  assumes "sort_Slice_contract sort_Slice"
  shows "prefix (hd (Split_BSS True output)) output \<and>
         Split_BSS True (hd (Split_BSS True output)) = [hd (Split_BSS True output)] \<and>
         (Split_BSS True output = [output] \<or>
          (\<exists>rest. output = hd (Split_BSS True output) @ ''BSS '' @ rest \<and>
             tl (Split_BSS True output) = Split_BSS False rest)) \<and>
         mset (parseScanOutput sort_Slice clock output) =
           mset (case parseBlock (clock 0) (hd (Split_BSS True output)) of
                   None \<Rightarrow> [] | Some n \<Rightarrow> [n]) +
           mset (parse_blocks clock 1 (tl (Split_BSS True output))) \<and>
         (parseBlock (clock 0) (hd (Split_BSS True output)) = None) =
           (\<not> (17 \<le> length (hd (Split_BSS True output)) \<and>
               list_all hexColon (take 17 (hd (Split_BSS True output)))))"
proof -
  let ?bs = "Split_BSS True output"
  have 1: "prefix (hd ?bs) output" by (rule Split_BSS_hd_prefix)
  have 2: "Split_BSS True (hd ?bs) = [hd ?bs]" by (rule Split_BSS_hd_whole)
  have 3: "?bs = [output] \<or>
          (\<exists>rest. output = hd ?bs @ ''BSS '' @ rest \<and> tl ?bs = Split_BSS False rest)"
    using Split_BSS_first [of True "output"] by blast
  have "?bs = hd ?bs # tl ?bs" using Split_BSS_ne [of True "output"] by simp
  then have "parse_blocks clock 0 ?bs =
      (case parseBlock (clock 0) (hd ?bs) of None \<Rightarrow> [] | Some n \<Rightarrow> [n]) @
      parse_blocks clock 1 (tl ?bs)"
    using parse_blocks_hd [of clock 0 "hd ?bs" "tl ?bs"] by simp
  then have 4: "mset (parseScanOutput sort_Slice clock output) =
           mset (case parseBlock (clock 0) (hd ?bs) of None \<Rightarrow> [] | Some n \<Rightarrow> [n]) +
           mset (parse_blocks clock 1 (tl ?bs))"
    using parseScanOutput_mset [OF assms, of clock "output"] by simp
  have 5: "(parseBlock (clock 0) (hd ?bs) = None) =
           (\<not> (17 \<le> length (hd ?bs) \<and> list_all hexColon (take 17 (hd ?bs))))"
    unfolding parseBlock_None_iff by (simp add: match_BSSID_def)
  from 1 2 3 4 5 show ?thesis by blast
qed

theorem first_fragment_witness:
  "hd (Split_BSS True sample_blob) = ''scan of wlan0'' @ [newline] \<and>
   parseBlock 0 (hd (Split_BSS True sample_blob)) = None \<and>
   mset (parseScanOutput insertion_sort int sample_blob) =
     mset (parse_blocks int 1 (tl (Split_BSS True sample_blob)))"
proof -
  have h: "hd (Split_BSS True sample_blob) = ''scan of wlan0'' @ [newline]" by code_simp
  have n: "\<not> list_all hexColon (take 17 (''scan of wlan0'' @ [newline]))" by code_simp
  from first_fragment [OF insertion_sort_contract, of sample_blob int] n
  show ?thesis unfolding h by simp
qed

text \<open>
  The text before the first marker is not discarded whatever it holds: when it starts
  with an address it yields a network.
\<close>

theorem first_fragment_counterexample:
  "hd (Split_BSS True stray_blob) = ''aa:bb:cc:dd:ee:ff is the default gateway'' @ [newline] \<and>
   map BSSID (parse_blocks int 0 [hd (Split_BSS True stray_blob)]) = [''AA:BB:CC:DD:EE:FF''] \<and>
   map BSSID (parseScanOutput insertion_sort int stray_blob) =
     [''AA:BB:CC:DD:EE:FF'', ''11:22:33:44:55:66'']"
  by code_simp

end
